theory Spec2Isabelle
  imports Main
begin

section \<open>Python strings\<close>

text \<open>
  The scraper (\<^verbatim>\<open>weather-report-scraper.py.old\<close>) works on Python \<^verbatim>\<open>str\<close> values.
  They are modelled as \<^typ>\<open>string\<close>, one \<^typ>\<open>char\<close> per code point, which covers the
  code points below 256. \<open>isspace\<close> lists the code points below 256 that Python's
  \<^verbatim>\<open>str.isspace\<close> accepts; \<^verbatim>\<open>str.strip()\<close> removes exactly those.
\<close>

definition isspace :: "char \<Rightarrow> bool" where
  "isspace c \<longleftrightarrow> (of_char c :: nat) \<in> {9, 10, 11, 12, 13, 28, 29, 30, 31, 32, 133, 160}"

definition lstrip :: "string \<Rightarrow> string" where
  "lstrip s = dropWhile isspace s"

definition rstrip :: "string \<Rightarrow> string" where
  "rstrip s = rev (dropWhile isspace (rev s))"

definition strip :: "string \<Rightarrow> string" where
  "strip s = rstrip (lstrip s)"

text \<open>\<^verbatim>\<open>sub in s\<close> on strings: \<open>sub\<close> occurs in \<open>s\<close> as a contiguous run.\<close>

definition startswith :: "string \<Rightarrow> string \<Rightarrow> bool" where
  "startswith s sub \<longleftrightarrow> take (length sub) s = sub"

fun contains :: "string \<Rightarrow> string \<Rightarrow> bool" where
  "contains [] sub = (sub = [])"
| "contains (c # cs) sub = (startswith (c # cs) sub \<or> contains cs sub)"

text \<open>\<^verbatim>\<open>sep.join(parts)\<close>.\<close>

fun join :: "string \<Rightarrow> string list \<Rightarrow> string" where
  "join sep [] = []"
| "join sep [x] = x"
| "join sep (x # y # ys) = x @ sep @ join sep (y # ys)"

text \<open>\<^verbatim>\<open>str(n)\<close> of an integer, as the f-string \<^verbatim>\<open>{v}\<close> formats it: decimal, a minus sign
  for a negative value.\<close>

definition digit_char :: "nat \<Rightarrow> char" where
  "digit_char d = ''0123456789'' ! d"

fun str_nat :: "nat \<Rightarrow> string" where
  "str_nat n = (if n < 10 then [digit_char n] else str_nat (n div 10) @ [digit_char (n mod 10)])"

definition str_int :: "int \<Rightarrow> string" where
  "str_int i = (if i < 0 then CHR ''-'' # str_nat (nat (- i)) else str_nat (nat i))"

text \<open>
  \<^verbatim>\<open>int(s)\<close> on a string, base 10. The whitespace that \<^verbatim>\<open>int\<close> skips at both ends is
  not that of \<^verbatim>\<open>str.strip\<close>: the conversion skips the ASCII whitespace 9 to 13 and 32,
  and treats the whitespace code points from 127 on (133 and 160 below 256) as spaces, but
  it does not skip the separators 28 to 31. After the whitespace one sign is allowed, then
  at least one digit; single underscores may stand between digits. A literal of more than
  \<open>max_str_digits\<close> digits is refused (\<^verbatim>\<open>sys.int_info.default_max_str_digits\<close>, the limit
  on string conversion of CPython 3.11 and of the security releases of 3.7 to 3.10; signs
  and underscores do not count). \<open>None\<close> is the \<^verbatim>\<open>ValueError\<close>.
\<close>

definition int_isspace :: "char \<Rightarrow> bool" where
  "int_isspace c \<longleftrightarrow> (of_char c :: nat) \<in> {9, 10, 11, 12, 13, 32, 133, 160}"

definition int_strip :: "string \<Rightarrow> string" where
  "int_strip s = rev (dropWhile int_isspace (rev (dropWhile int_isspace s)))"

definition max_str_digits :: nat where
  "max_str_digits = 4300"

definition isdigit :: "char \<Rightarrow> bool" where
  "isdigit c \<longleftrightarrow> 48 \<le> (of_char c :: nat) \<and> (of_char c :: nat) \<le> 57"

definition digit_val :: "char \<Rightarrow> nat" where
  "digit_val c = of_char c - 48"

fun parse_digits :: "nat \<Rightarrow> string \<Rightarrow> nat option" where
  "parse_digits acc [] = Some acc"
| "parse_digits acc (c # cs) =
     (if isdigit c then parse_digits (10 * acc + digit_val c) cs
      else if c = CHR ''_'' then
        (case cs of
           [] \<Rightarrow> None
         | d # ds \<Rightarrow> if isdigit d then parse_digits (10 * acc + digit_val d) ds else None)
      else None)"

definition parse_unsigned :: "string \<Rightarrow> nat option" where
  "parse_unsigned s =
     (case s of
        [] \<Rightarrow> None
      | c # cs \<Rightarrow>
          if isdigit c then
            (if length (filter isdigit s) > max_str_digits then None
             else parse_digits (digit_val c) cs)
          else None)"

definition py_int :: "string \<Rightarrow> int option" where
  "py_int s =
     (case int_strip s of
        [] \<Rightarrow> None
      | c # cs \<Rightarrow>
          if c = CHR ''-'' then map_option (\<lambda>n. - int n) (parse_unsigned cs)
          else if c = CHR ''+'' then map_option int (parse_unsigned cs)
          else map_option int (parse_unsigned (c # cs)))"

section \<open>The outside world\<close>

text \<open>
  What \<^verbatim>\<open>BeautifulSoup(response.text, 'html.parser')\<close> gives the scraper: the text of the
  first \<^verbatim>\<open>pre\<close> element of class \<^verbatim>\<open>glossaryProduct\<close> if there is one
  (\<^verbatim>\<open>soup.find\<close>), and the \<^verbatim>\<open>div\<close> elements in document order (\<^verbatim>\<open>soup.find_all\<close>), each
  with its text and the texts of the \<^verbatim>\<open>a\<close> elements inside it.
\<close>

record div_tag =
  div_text :: string
  div_links :: "string list"

record soup =
  pre_tag :: "string option"
  divs :: "div_tag list"

text \<open>
  One \<^verbatim>\<open>requests.get(url, timeout=10)\<close> followed by \<^verbatim>\<open>raise_for_status()\<close> and the
  parse: the parsed page, or the exception that one of the three raised, with its
  \<^verbatim>\<open>str(e)\<close>. \<open>RequestException\<close> is any \<^verbatim>\<open>requests.RequestException\<close> (also one that
  is a \<^verbatim>\<open>ValueError\<close> as well: the handlers test for it first), \<open>ValueError\<close> a
  \<^verbatim>\<open>ValueError\<close> that is no \<^verbatim>\<open>RequestException\<close>, \<open>Unexpected\<close> any other \<^verbatim>\<open>Exception\<close>.
\<close>

datatype response =
    Response soup
  | RequestException string
  | ValueError string
  | Unexpected string

text \<open>What a call does besides returning: requests, sleeps and log records, in order.\<close>

datatype level = INFO | WARNING | ERROR

text \<open>
  The \<^verbatim>\<open>ValueError\<close> that discovery logs: raised by \<^verbatim>\<open>int\<close> on the given text, or raised
  by the request or the parse with the given \<^verbatim>\<open>str(e)\<close>.
\<close>

datatype value_error = InvalidLiteral string | Raised string

datatype message =
    AttemptFailed nat int string
  | NoDataFound int
  | FetchFailed int nat string
  | NoVersionInformation
  | TotalVersionsFailed string
  | ParseVersionFailed value_error
  | VersionException int string
  | TotalVersions int
  | ReportsSaved

datatype effect =
    Request int
  | Sleep nat
  | Log level message

section \<open>get_weather_report\<close>

text \<open>
  The \<^verbatim>\<open>for attempt in range(tries)\<close> loop. \<open>net k\<close> is the outcome of the \<open>k\<close>-th request
  (from 0) for this version's URL. The value is \<open>Inr (Some text)\<close> for a returned string,
  \<open>Inr None\<close> for a returned \<^verbatim>\<open>None\<close>, and \<open>Inl e\<close> for an exception that is not a
  \<^verbatim>\<open>RequestException\<close> and so leaves the function (the only handler is
  \<^verbatim>\<open>except requests.RequestException\<close>).
\<close>

function attempt_loop ::
  "(nat \<Rightarrow> response) \<Rightarrow> int \<Rightarrow> nat \<Rightarrow> nat \<Rightarrow> (string + string option) \<times> effect list" where
  "attempt_loop net version tries attempt =
     (if attempt < tries then
        (case net attempt of
           Response page \<Rightarrow>
             (case pre_tag page of
                Some t \<Rightarrow> (Inr (Some (strip t)), [Request version])
              | None \<Rightarrow> (Inr None, [Request version, Log WARNING (NoDataFound version)]))
         | RequestException e \<Rightarrow>
             if attempt < tries - 1 then
               (let (r, effs) = attempt_loop net version tries (attempt + 1)
                in (r, [Request version,
                        Log WARNING (AttemptFailed (attempt + 1) version e),
                        Sleep 2] @ effs))
             else (Inr None, [Request version, Log ERROR (FetchFailed version tries e)])
         | ValueError e \<Rightarrow> (Inl e, [Request version])
         | Unexpected e \<Rightarrow> (Inl e, [Request version]))
      else (Inr None, []))"
  by pat_completeness auto
termination
  by (relation "measure (\<lambda>(net, version, tries, attempt). tries - attempt)") auto

definition get_weather_report ::
  "(nat \<Rightarrow> response) \<Rightarrow> int \<Rightarrow> (string + string option) \<times> effect list" where
  "get_weather_report net version = attempt_loop net version 3 0"

section \<open>get_total_versions\<close>

text \<open>
  The loop over the \<^verbatim>\<open>div\<close>s stops at the first one whose text contains \<^verbatim>\<open>Versions:\<close> and
  that has links, and hands the text of its last link to \<^verbatim>\<open>int\<close>. The handlers
  \<^verbatim>\<open>except requests.RequestException\<close> and \<^verbatim>\<open>except ValueError\<close> cover the whole
  \<^verbatim>\<open>try\<close> block: a \<^verbatim>\<open>ValueError\<close> of the request or of the parse is caught like the one
  of \<^verbatim>\<open>int\<close>, and only another exception leaves the function.
\<close>

fun find_versions :: "div_tag list \<Rightarrow> string option" where
  "find_versions [] = None"
| "find_versions (d # ds) =
     (if contains (div_text d) ''Versions:'' \<and> div_links d \<noteq> []
      then Some (last (div_links d))
      else find_versions ds)"

definition get_total_versions :: "response \<Rightarrow> (string + int) \<times> effect list" where
  "get_total_versions r =
     (case r of
        Response page \<Rightarrow>
          (case find_versions (divs page) of
             Some t \<Rightarrow>
               (case py_int t of
                  Some last_version \<Rightarrow> (Inr last_version, [Request 1])
                | None \<Rightarrow>
                    (Inr 0, [Request 1, Log ERROR (ParseVersionFailed (InvalidLiteral t))]))
           | None \<Rightarrow> (Inr 0, [Request 1, Log ERROR NoVersionInformation]))
      | RequestException e \<Rightarrow> (Inr 0, [Request 1, Log ERROR (TotalVersionsFailed e)])
      | ValueError e \<Rightarrow> (Inr 0, [Request 1, Log ERROR (ParseVersionFailed (Raised e))])
      | Unexpected e \<Rightarrow> (Inl e, [Request 1]))"

section \<open>get_optimal_worker_count\<close>

text \<open>\<open>cpu_count\<close> is what \<^verbatim>\<open>os.cpu_count()\<close> returned: \<open>None\<close> when it is undetermined.\<close>

definition get_optimal_worker_count :: "nat option \<Rightarrow> nat" where
  "get_optimal_worker_count cpu_count =
     (case cpu_count of
        None \<Rightarrow> 5
      | Some n \<Rightarrow> min (n * 5) 32)"

section \<open>fetch_reports\<close>

text \<open>
  A Python \<^verbatim>\<open>dict\<close> is an association list in insertion order: assigning to a key that is
  present replaces its value in place, a new key goes to the end.
\<close>

type_synonym reports = "(int \<times> string) list"

fun setitem :: "reports \<Rightarrow> int \<Rightarrow> string \<Rightarrow> reports" where
  "setitem [] k v = [(k, v)]"
| "setitem ((k', v') # d) k v = (if k' = k then (k, v) # d else (k', v') # setitem d k v)"

definition keys :: "reports \<Rightarrow> int list" where
  "keys d = map fst d"

text \<open>
  The environment of a run: the host's CPU count, the response to the discovery request,
  the responses to the requests of each version's worker, and for the \<open>i\<close>-th submitted
  future the time at which it completes. \<^verbatim>\<open>as_completed\<close> yields the futures by completion
  time, whatever the order of submission.
\<close>

record env =
  cpu_count :: "nat option"
  discovery :: response
  network :: "int \<Rightarrow> nat \<Rightarrow> response"
  finish :: "nat \<Rightarrow> nat"

text \<open>
  \<^verbatim>\<open>executor.submit(get_weather_report, version)\<close>: the future of one fetch, with the
  version it was submitted for, what the call returns or raises, and what the call does.
\<close>

record future =
  fut_version :: int
  fut_result :: "string + string option"
  fut_effects :: "effect list"

definition submit :: "env \<Rightarrow> int \<Rightarrow> future" where
  "submit e version =
     \<lparr>fut_version = version,
      fut_result = fst (get_weather_report (network e version) version),
      fut_effects = snd (get_weather_report (network e version) version)\<rparr>"

definition as_completed :: "(nat \<Rightarrow> nat) \<Rightarrow> nat \<Rightarrow> nat list" where
  "as_completed fin n = sort_key fin [0..<n]"

text \<open>
  The body of the loop over the completed futures, for the \<open>i\<close>-th submitted one
  (\<^verbatim>\<open>as_completed\<close> yields positions below the number of futures only):
  \<^verbatim>\<open>if data:\<close> holds for a non-empty string only; an exception of the future is logged
  and leaves no entry.
\<close>

definition collect ::
  "future list \<Rightarrow> nat \<Rightarrow> reports \<times> effect list \<Rightarrow> reports \<times> effect list" where
  "collect future_to_version i acc =
     (let future = future_to_version ! i; version = fut_version future in
      case fut_result future of
        Inr (Some data) \<Rightarrow>
          if data \<noteq> [] then (setitem (fst acc) version data, snd acc) else acc
      | Inr None \<Rightarrow> acc
      | Inl exc \<Rightarrow> (fst acc, snd acc @ [Log ERROR (VersionException version exc)]))"

record pool =
  max_workers :: nat
  submitted :: "int list"
  results :: reports
  pool_log :: "effect list"

text \<open>
  A call of \<^verbatim>\<open>fetch_reports\<close>: one future is submitted for each element of \<open>versions\<close>
  (the dictionary comprehension), and the results are collected in the order of
  completion. \<open>fetch_reports_run\<close> gives the pool's own record together with the futures
  that ran; \<open>fetch_reports\<close> is the record alone.
\<close>

definition fetch_reports_run :: "env \<Rightarrow> int list \<Rightarrow> pool \<times> future list" where
  "fetch_reports_run e versions =
     (let future_to_version = map (submit e) versions;
          collected = fold (collect future_to_version)
                        (as_completed (finish e) (length future_to_version)) ([], [])
      in (\<lparr>max_workers = get_optimal_worker_count (cpu_count e),
           submitted = map fut_version future_to_version,
           results = fst collected,
           pool_log = snd collected\<rparr>,
          future_to_version))"

definition fetch_reports :: "env \<Rightarrow> int list \<Rightarrow> pool" where
  "fetch_reports e versions = fst (fetch_reports_run e versions)"

section \<open>main\<close>

datatype py_error = KeyError int | Uncaught string

definition block :: "int \<Rightarrow> string \<Rightarrow> string" where
  "block v t = ''<version_'' @ str_int v @ ''>'' @ [CHR 0x0A] @ t @ [CHR 0x0A]
               @ ''</version_'' @ str_int v @ ''>''"

definition separator :: string where
  "separator = [CHR 0x0A, CHR 0x0A]"

text \<open>The list comprehension over \<^verbatim>\<open>sorted(all_reports.keys())\<close>, with the lookup
  \<^verbatim>\<open>all_reports[v]\<close> that raises \<^verbatim>\<open>KeyError\<close> on a missing key.\<close>

fun blocks :: "reports \<Rightarrow> int list \<Rightarrow> py_error + string list" where
  "blocks d [] = Inr []"
| "blocks d (v # vs) =
     (case map_of d v of
        None \<Rightarrow> Inl (KeyError v)
      | Some t \<Rightarrow> (case blocks d vs of Inl err \<Rightarrow> Inl err | Inr bs \<Rightarrow> Inr (block v t # bs)))"

definition sorted_reports :: "reports \<Rightarrow> py_error + string list" where
  "sorted_reports all_reports = blocks all_reports (sort (keys all_reports))"

text \<open>
  A run of \<^verbatim>\<open>main\<close>: the versions handed to the executor, the text written to
  \<^verbatim>\<open>weather_reports.txt\<close> and the text copied to the clipboard (\<open>None\<close> when the run does
  not write), or the exception that ends the run. \<open>main_run\<close> gives this together with
  the futures that the run's pool ran; \<open>main\<close> is the outcome alone and \<open>fetches\<close> the
  futures alone.
\<close>

record run =
  dispatched :: "int list"
  all_reports :: reports
  written :: "string option"
  copied :: "string option"

definition main_run :: "env \<Rightarrow> (py_error + run) \<times> future list" where
  "main_run e =
     (case fst (get_total_versions (discovery e)) of
        Inl exc \<Rightarrow> (Inl (Uncaught exc), [])
      | Inr total_versions \<Rightarrow>
          if total_versions = 0 then
            (Inr \<lparr>dispatched = [], all_reports = [], written = None, copied = None\<rparr>, [])
          else
            (let (p, futures) = fetch_reports_run e [1..total_versions] in
             (case sorted_reports (results p) of
                Inl err \<Rightarrow> Inl err
              | Inr bs \<Rightarrow>
                  Inr \<lparr>dispatched = submitted p,
                       all_reports = results p,
                       written = Some (join separator bs),
                       copied = Some (''<clip>'' @ separator @ join separator bs
                                      @ separator @ ''</clip>'')\<rparr>,
              futures)))"

definition main :: "env \<Rightarrow> py_error + run" where
  "main e = fst (main_run e)"

definition fetches :: "env \<Rightarrow> future list" where
  "fetches e = snd (main_run e)"

section \<open>Vocabulary of the specification\<close>

text \<open>Counting what a fetch did: the requests it sent and the delays it waited.\<close>

fun is_request :: "effect \<Rightarrow> bool" where
  "is_request (Request v) = True"
| "is_request (Sleep d) = False"
| "is_request (Log l m) = False"

definition attempts_made :: "effect list \<Rightarrow> nat" where
  "attempts_made effs = length (filter is_request effs)"

fun delays :: "effect list \<Rightarrow> nat list" where
  "delays [] = []"
| "delays (Sleep d # effs) = d # delays effs"
| "delays (Request v # effs) = delays effs"
| "delays (Log l m # effs) = delays effs"

text \<open>
  The text that the fetch of version \<open>v\<close> hands to the aggregation: the string
  \<^verbatim>\<open>get_weather_report\<close> returned, if it returned one and the string is not empty.
\<close>

definition kept :: "(int \<Rightarrow> nat \<Rightarrow> response) \<Rightarrow> int \<Rightarrow> string option" where
  "kept net v =
     (case fst (get_weather_report (net v) v) of
        Inr (Some t) \<Rightarrow> if t \<noteq> [] then Some t else None
      | Inr None \<Rightarrow> None
      | Inl exc \<Rightarrow> None)"

text \<open>
  The artifact as the specification describes it: going through the indices in the given
  order, one delimited block for each index with a kept text and nothing for the others.
\<close>

fun spec_blocks :: "(int \<Rightarrow> nat \<Rightarrow> response) \<Rightarrow> int list \<Rightarrow> string list" where
  "spec_blocks net [] = []"
| "spec_blocks net (v # vs) =
     (case kept net v of
        Some t \<Rightarrow> block v t # spec_blocks net vs
      | None \<Rightarrow> spec_blocks net vs)"

definition spec_artifact :: "(int \<Rightarrow> nat \<Rightarrow> response) \<Rightarrow> int \<Rightarrow> string" where
  "spec_artifact net n = join separator (spec_blocks net [1..n])"

section \<open>Example pages and runs\<close>

definition product_page :: "string \<Rightarrow> response" where
  "product_page raw = Response \<lparr>pre_tag = Some raw, divs = []\<rparr>"

definition empty_page :: response where
  "empty_page = Response \<lparr>pre_tag = None, divs = []\<rparr>"

definition versions_page :: "string list \<Rightarrow> response" where
  "versions_page links =
     Response \<lparr>pre_tag = None,
               divs = [\<lparr>div_text = ''Search'', div_links = []\<rparr>,
                       \<lparr>div_text = ''Versions: '' @ concat links, div_links = links\<rparr>]\<rparr>"

definition always_failing :: "nat \<Rightarrow> response" where
  "always_failing k = RequestException ''timed out''"

definition always_missing :: "nat \<Rightarrow> response" where
  "always_missing k = empty_page"

definition failing_then :: "nat \<Rightarrow> response \<Rightarrow> nat \<Rightarrow> response" where
  "failing_then j r k = (if k < j then RequestException ''timed out'' else r)"

text \<open>
  Scenario A of the specification: three versions are discovered, versions 1 and 3 have a
  product text, version 2 has none; the futures complete in reverse order.
\<close>

definition scenario_a_network :: "int \<Rightarrow> nat \<Rightarrow> response" where
  "scenario_a_network v k =
     (if v = 1 then product_page ''alpha''
      else if v = 3 then product_page '' gamma ''
      else empty_page)"

definition scenario_a :: env where
  "scenario_a = \<lparr>cpu_count = Some 4, discovery = versions_page [''1'', ''2'', ''3''],
                  network = scenario_a_network, finish = (\<lambda>i. 3 - i)\<rparr>"

text \<open>A run whose only version has a product block of whitespace.\<close>

definition blank_network :: "int \<Rightarrow> nat \<Rightarrow> response" where
  "blank_network v k = product_page ''  ''"

definition scenario_blank :: env where
  "scenario_blank = \<lparr>cpu_count = Some 4, discovery = versions_page [''1''],
                      network = blank_network, finish = (\<lambda>i. i)\<rparr>"

text \<open>Scenario B of the specification: the page lists version 0 as the last one.\<close>

definition scenario_b :: env where
  "scenario_b = \<lparr>cpu_count = None, discovery = versions_page [''0''],
                  network = scenario_a_network, finish = (\<lambda>i. i)\<rparr>"

section \<open>Python strings and numbers\<close>

declare str_nat.simps [simp del]

lemmas py_eval = py_int_def int_strip_def int_isspace_def max_str_digits_def
  strip_def lstrip_def rstrip_def isspace_def parse_unsigned_def
  isdigit_def digit_val_def startswith_def

text \<open>
  The string operations mean what their Python names say: \<open>contains\<close> is the substring
  test, and a text trims to the empty string exactly when it is made of whitespace.
\<close>

lemma startswith_iff: "startswith s sub \<longleftrightarrow> (\<exists>suf. s = sub @ suf)"
proof
  assume "startswith s sub"
  then have "s = sub @ drop (length sub) s"
    by (metis append_take_drop_id startswith_def)
  then show "\<exists>suf. s = sub @ suf" ..
next
  assume "\<exists>suf. s = sub @ suf"
  then show "startswith s sub" by (auto simp: startswith_def)
qed

lemma contains_iff: "contains s sub \<longleftrightarrow> (\<exists>pre suf. s = pre @ sub @ suf)"
proof (induction s)
  case Nil
  show ?case by auto
next
  case (Cons c cs)
  show ?case
  proof
    assume "contains (c # cs) sub"
    then consider "startswith (c # cs) sub" | "contains cs sub" by auto
    then show "\<exists>pre suf. c # cs = pre @ sub @ suf"
    proof cases
      case 1
      then obtain suf where "c # cs = sub @ suf" by (auto simp: startswith_iff)
      then have "c # cs = [] @ sub @ suf" by simp
      then show ?thesis by blast
    next
      case 2
      then obtain pre suf where "cs = pre @ sub @ suf" using Cons.IH by blast
      then have "c # cs = (c # pre) @ sub @ suf" by simp
      then show ?thesis by blast
    qed
  next
    assume "\<exists>pre suf. c # cs = pre @ sub @ suf"
    then obtain pre suf where e: "c # cs = pre @ sub @ suf" by blast
    show "contains (c # cs) sub"
    proof (cases pre)
      case Nil
      then have "startswith (c # cs) sub" using e by (auto simp: startswith_iff)
      then show ?thesis by simp
    next
      case (Cons a pre')
      then have "cs = pre' @ sub @ suf" using e by simp
      then have "contains cs sub" using Cons.IH by blast
      then show ?thesis by simp
    qed
  qed
qed

lemma strip_empty_iff: "strip s = [] \<longleftrightarrow> (\<forall>c\<in>set s. isspace c)"
proof
  assume "strip s = []"
  then have a: "\<forall>c\<in>set (dropWhile isspace s). isspace c"
    by (simp add: strip_def rstrip_def lstrip_def dropWhile_eq_Nil_conv)
  have "dropWhile isspace s = []"
  proof (rule ccontr)
    assume n: "dropWhile isspace s \<noteq> []"
    then have "\<not> isspace (hd (dropWhile isspace s))" by (rule hd_dropWhile)
    moreover have "hd (dropWhile isspace s) \<in> set (dropWhile isspace s)" using n by simp
    ultimately show False using a by blast
  qed
  then show "\<forall>c\<in>set s. isspace c" by (simp add: dropWhile_eq_Nil_conv)
next
  assume "\<forall>c\<in>set s. isspace c"
  then show "strip s = []"
    by (auto simp: strip_def rstrip_def lstrip_def dest: set_dropWhileD)
qed

lemma digit_char_digit:
  assumes "d < 10"
  shows "isdigit (digit_char d) \<and> digit_val (digit_char d) = d \<and> \<not> int_isspace (digit_char d)
       \<and> digit_char d \<noteq> CHR ''-'' \<and> digit_char d \<noteq> CHR ''+''"
proof -
  have "d \<in> {0, 1, 2, 3, 4, 5, 6, 7, 8, 9}" using assms by auto
  then show ?thesis
    by (auto simp: digit_char_def isdigit_def digit_val_def int_isspace_def)
qed

lemma str_nat_small: "n < 10 \<Longrightarrow> str_nat n = [digit_char n]"
  by (simp add: str_nat.simps [of n])

lemma str_nat_large: "\<not> n < 10 \<Longrightarrow> str_nat n = str_nat (n div 10) @ [digit_char (n mod 10)]"
  by (simp add: str_nat.simps [of n])

lemma str_nat_digits: "c \<in> set (str_nat n) \<Longrightarrow> isdigit c"
proof (induction n arbitrary: c rule: str_nat.induct)
  case (1 n)
  show ?case
  proof (cases "n < 10")
    case True
    then show ?thesis using "1.prems" digit_char_digit [of n] by (simp add: str_nat_small)
  next
    case False
    then have "c \<in> set (str_nat (n div 10)) \<or> c = digit_char (n mod 10)"
      using "1.prems" by (auto simp: str_nat_large)
    then show ?thesis
      using "1.IH" [OF False] digit_char_digit [of "n mod 10"] by auto
  qed
qed

lemma str_nat_nonempty: "str_nat n \<noteq> []"
  by (cases "n < 10") (simp_all add: str_nat_small str_nat_large)

lemma str_nat_length: "0 < k \<Longrightarrow> n < 10 ^ k \<Longrightarrow> length (str_nat n) \<le> k"
proof (induction n arbitrary: k rule: str_nat.induct)
  case (1 n)
  show ?case
  proof (cases "n < 10")
    case True
    then show ?thesis using "1.prems" by (simp add: str_nat_small)
  next
    case False
    obtain k' where k: "k = Suc k'" using "1.prems"(1) by (cases k) simp_all
    have "k' \<noteq> 0" using False "1.prems"(2) k by (cases k') simp_all
    then have p: "0 < k'" by simp
    have "n < 10 * 10 ^ k'" using "1.prems"(2) k by simp
    then have "n div 10 < 10 ^ k'" by (simp add: less_mult_imp_div_less mult.commute)
    then have "length (str_nat (n div 10)) \<le> k'" using "1.IH" [OF False p] by simp
    then show ?thesis using False k by (simp add: str_nat_large)
  qed
qed

lemma parse_digits_all_digits:
  "\<forall>c\<in>set cs. isdigit c \<Longrightarrow>
   parse_digits acc cs = Some (foldl (\<lambda>a c. 10 * a + digit_val c) acc cs)"
  by (induction cs arbitrary: acc) simp_all

lemma foldl_str_nat:
  "foldl (\<lambda>a c. 10 * a + digit_val c) acc (str_nat n) = acc * 10 ^ length (str_nat n) + n"
proof (induction n arbitrary: acc rule: str_nat.induct)
  case (1 n)
  show ?case
  proof (cases "n < 10")
    case True
    then show ?thesis using digit_char_digit [of n] by (simp add: str_nat_small)
  next
    case False
    have m: "n mod 10 < 10" by simp
    show ?thesis
      using "1.IH" [OF False, of acc] digit_char_digit [OF m]
      by (simp add: str_nat_large [OF False] algebra_simps)
  qed
qed

lemma parse_unsigned_str_nat:
  assumes "n < 10 ^ max_str_digits"
  shows "parse_unsigned (str_nat n) = Some n"
proof -
  obtain c cs where s: "str_nat n = c # cs" using str_nat_nonempty [of n] by (cases "str_nat n") auto
  have d: "\<forall>x\<in>set (c # cs). isdigit x" using str_nat_digits [of _ n] s by auto
  have "0 < max_str_digits" by (simp add: max_str_digits_def)
  then have "length (str_nat n) \<le> max_str_digits"
    using assms by (rule str_nat_length)
  then have l: "\<not> length (filter isdigit (c # cs)) > max_str_digits"
    using d s by (simp add: filter_id_conv [THEN iffD2] del: filter.simps)
  have "parse_digits (digit_val c) cs = Some (foldl (\<lambda>a c. 10 * a + digit_val c) 0 (c # cs))"
    using d by (simp add: parse_digits_all_digits)
  also have "\<dots> = Some n" using foldl_str_nat [of 0 n] s by simp
  finally show ?thesis using d l by (simp add: parse_unsigned_def s)
qed

lemma int_strip_padded:
  assumes "\<forall>c\<in>set ws1. int_isspace c" and "\<forall>c\<in>set ws2. int_isspace c"
    and "s \<noteq> []" and "\<not> int_isspace (hd s)" and "\<not> int_isspace (last s)"
  shows "int_strip (ws1 @ s @ ws2) = s"
proof -
  obtain c cs where s: "s = c # cs" using assms(3) by (cases s) auto
  have "dropWhile int_isspace (ws1 @ s @ ws2) = dropWhile int_isspace (s @ ws2)"
    using assms(1) by (simp add: dropWhile_append2)
  also have "\<dots> = s @ ws2" using assms(4) s by simp
  finally have a: "dropWhile int_isspace (ws1 @ s @ ws2) = s @ ws2" .
  have "hd (rev s) = last s" using assms(3) by (simp add: hd_rev)
  then have h: "\<not> int_isspace (hd (rev s))" using assms(5) by simp
  obtain d ds where r: "rev s = d # ds" using assms(3) by (cases "rev s") auto
  have "\<And>x. x \<in> set (rev ws2) \<Longrightarrow> int_isspace x" using assms(2) by simp
  then have "dropWhile int_isspace (rev ws2 @ rev s) = dropWhile int_isspace (rev s)"
    by (rule dropWhile_append2)
  then have "dropWhile int_isspace (rev (s @ ws2)) = dropWhile int_isspace (rev s)"
    by simp
  also have "\<dots> = rev s" using h r by simp
  finally show ?thesis by (simp add: int_strip_def a)
qed

lemma py_int_str_int:
  assumes "\<forall>c\<in>set ws1. int_isspace c" and "\<forall>c\<in>set ws2. int_isspace c"
    and "\<bar>n\<bar> < 10 ^ max_str_digits"
  shows "py_int (ws1 @ str_int n @ ws2) = Some n"
proof (cases "n < 0")
  case True
  let ?m = "nat (- n)"
  have "int ?m < 10 ^ max_str_digits" using assms(3) True by simp
  then have "?m < 10 ^ max_str_digits" by (metis of_nat_less_iff of_nat_numeral of_nat_power)
  then have p: "parse_unsigned (str_nat ?m) = Some ?m" by (rule parse_unsigned_str_nat)
  have l: "last (str_int n) \<in> set (str_nat ?m)"
    using True str_nat_nonempty [of ?m] by (simp add: str_int_def)
  have "\<not> int_isspace (last (str_int n))"
  proof -
    have "isdigit (last (str_int n))" using l by (rule str_nat_digits)
    then show ?thesis by (auto simp: isdigit_def int_isspace_def)
  qed
  moreover have "\<not> int_isspace (hd (str_int n))"
    using True by (simp add: str_int_def int_isspace_def)
  moreover have "str_int n \<noteq> []" using True by (simp add: str_int_def)
  ultimately have "int_strip (ws1 @ str_int n @ ws2) = str_int n"
    using assms(1,2) by (intro int_strip_padded)
  then show ?thesis using True p by (simp add: py_int_def str_int_def)
next
  case False
  let ?m = "nat n"
  have "int ?m < 10 ^ max_str_digits" using assms(3) False by simp
  then have "?m < 10 ^ max_str_digits" by (metis of_nat_less_iff of_nat_numeral of_nat_power)
  then have p: "parse_unsigned (str_nat ?m) = Some ?m" by (rule parse_unsigned_str_nat)
  obtain c cs where s: "str_nat ?m = c # cs"
    using str_nat_nonempty [of ?m] by (cases "str_nat ?m") auto
  have d: "isdigit c" "isdigit (last (str_nat ?m))"
    using str_nat_digits [of _ ?m] s str_nat_nonempty [of ?m] by auto
  then have c: "c \<noteq> CHR ''-''" "c \<noteq> CHR ''+''" "\<not> int_isspace c"
    "\<not> int_isspace (last (str_nat ?m))"
    by (auto simp: isdigit_def int_isspace_def)
  have "int_strip (ws1 @ str_nat ?m @ ws2) = str_nat ?m"
    using assms(1,2) c s by (intro int_strip_padded) simp_all
  then show ?thesis using False p c s by (simp add: py_int_def str_int_def)
qed

lemma parse_digits_chars:
  "parse_digits acc cs = Some n \<Longrightarrow> c \<in> set cs \<Longrightarrow> isdigit c \<or> c = CHR ''_''"
  by (induction acc cs arbitrary: n rule: parse_digits.induct)
    (auto split: if_splits list.splits)

lemma parse_unsigned_chars:
  "parse_unsigned s = Some n \<Longrightarrow> c \<in> set s \<Longrightarrow> isdigit c \<or> c = CHR ''_''"
  by (cases s) (auto simp: parse_unsigned_def split: if_splits dest: parse_digits_chars)

lemma dropWhile_keeps: "x \<in> set xs \<Longrightarrow> \<not> P x \<Longrightarrow> x \<in> set (dropWhile P xs)"
  by (induction xs) auto

lemma int_strip_keeps: "x \<in> set s \<Longrightarrow> \<not> int_isspace x \<Longrightarrow> x \<in> set (int_strip s)"
  by (simp add: int_strip_def dropWhile_keeps)

lemma py_int_bad_char:
  assumes "c \<in> set t" and "\<not> isdigit c" and "\<not> int_isspace c"
    and "c \<noteq> CHR ''+''" and "c \<noteq> CHR ''-''" and "c \<noteq> CHR ''_''"
  shows "py_int t = None"
proof (rule ccontr)
  assume "py_int t \<noteq> None"
  then obtain n where n: "py_int t = Some n" by auto
  have m: "c \<in> set (int_strip t)" using assms(1,3) by (rule int_strip_keeps)
  then obtain x xs where s: "int_strip t = x # xs" by (cases "int_strip t") auto
  have "\<exists>k. parse_unsigned xs = Some k \<or> parse_unsigned (x # xs) = Some k"
    using n s by (auto simp: py_int_def split: if_splits)
  then obtain k where k: "parse_unsigned xs = Some k \<or> parse_unsigned (x # xs) = Some k" ..
  show False
  proof (cases "c = x")
    case True
    then have "\<exists>k'. parse_unsigned (x # xs) = Some k'"
      using n s assms(4,5) by (auto simp: py_int_def split: if_splits)
    then obtain k' where "parse_unsigned (x # xs) = Some k'" ..
    then show False using parse_unsigned_chars [of "x # xs" k' c] True assms(2,6) by simp
  next
    case False
    then have "c \<in> set xs" using m s by simp
    then show False
      using k parse_unsigned_chars [of xs k c] parse_unsigned_chars [of "x # xs" k c] assms(2,6)
      by auto
  qed
qed

lemma filter_dropWhile_disjoint:
  "(\<And>x. P x \<Longrightarrow> \<not> Q x) \<Longrightarrow> filter Q (dropWhile P xs) = filter Q xs"
  by (induction xs) auto

lemma digits_int_strip: "filter isdigit (int_strip t) = filter isdigit t"
proof -
  have d: "\<And>x. int_isspace x \<Longrightarrow> \<not> isdigit x" by (auto simp: int_isspace_def isdigit_def)
  have "filter isdigit (int_strip t)
      = rev (filter isdigit (dropWhile int_isspace (rev (dropWhile int_isspace t))))"
    by (simp add: int_strip_def rev_filter)
  also have "\<dots> = rev (filter isdigit (rev (dropWhile int_isspace t)))"
    using d by (simp add: filter_dropWhile_disjoint)
  also have "\<dots> = filter isdigit (dropWhile int_isspace t)" by (simp add: rev_filter)
  also have "\<dots> = filter isdigit t" using d by (simp add: filter_dropWhile_disjoint)
  finally show ?thesis .
qed

lemma parse_unsigned_too_long:
  "max_str_digits < length (filter isdigit s) \<Longrightarrow> parse_unsigned s = None"
  by (cases s) (auto simp: parse_unsigned_def)

lemma py_int_too_long:
  assumes "max_str_digits < length (filter isdigit t)"
  shows "py_int t = None"
proof (cases "int_strip t")
  case Nil
  then show ?thesis by (simp add: py_int_def)
next
  case (Cons c cs)
  have l: "max_str_digits < length (filter isdigit (c # cs))"
    using assms digits_int_strip [of t] Cons by simp
  have "parse_unsigned (c # cs) = None" using l by (rule parse_unsigned_too_long)
  moreover have "parse_unsigned cs = None" if "\<not> isdigit c"
    using l that by (intro parse_unsigned_too_long) simp
  moreover have "\<not> isdigit (CHR ''-'')" "\<not> isdigit (CHR ''+'')" by (simp_all add: isdigit_def)
  ultimately show ?thesis by (auto simp: py_int_def Cons)
qed

section \<open>The retry loop\<close>

declare attempt_loop.simps [simp del]

lemma loop_response:
  "a < tries \<Longrightarrow> net a = Response p \<Longrightarrow>
   attempt_loop net v tries a =
     (case pre_tag p of
        Some t \<Rightarrow> (Inr (Some (strip t)), [Request v])
      | None \<Rightarrow> (Inr None, [Request v, Log WARNING (NoDataFound v)]))"
  by (subst attempt_loop.simps) simp

lemma loop_retry:
  "a < tries - 1 \<Longrightarrow> net a = RequestException c \<Longrightarrow>
   attempt_loop net v tries a =
     (fst (attempt_loop net v tries (a + 1)),
      [Request v, Log WARNING (AttemptFailed (a + 1) v c), Sleep 2]
        @ snd (attempt_loop net v tries (a + 1)))"
  by (subst attempt_loop.simps) (auto simp: split_def Let_def)

lemma loop_exhausted:
  "a < tries \<Longrightarrow> \<not> a < tries - 1 \<Longrightarrow> net a = RequestException c \<Longrightarrow>
   attempt_loop net v tries a = (Inr None, [Request v, Log ERROR (FetchFailed v tries c)])"
  by (subst attempt_loop.simps) simp

lemma loop_value_error:
  "a < tries \<Longrightarrow> net a = ValueError x \<Longrightarrow> attempt_loop net v tries a = (Inl x, [Request v])"
  by (subst attempt_loop.simps) simp

lemma loop_unexpected:
  "a < tries \<Longrightarrow> net a = Unexpected x \<Longrightarrow> attempt_loop net v tries a = (Inl x, [Request v])"
  by (subst attempt_loop.simps) simp

lemma gwr_first_response:
  "net 0 = Response p \<Longrightarrow>
   get_weather_report net v =
     (case pre_tag p of
        Some t \<Rightarrow> (Inr (Some (strip t)), [Request v])
      | None \<Rightarrow> (Inr None, [Request v, Log WARNING (NoDataFound v)]))"
  by (simp add: get_weather_report_def loop_response)

lemma all_failed:
  assumes "\<forall>k<3. net k = RequestException (cause k)"
  shows "get_weather_report net v =
           (Inr None,
            [Request v, Log WARNING (AttemptFailed 1 v (cause 0)), Sleep 2,
             Request v, Log WARNING (AttemptFailed 2 v (cause 1)), Sleep 2,
             Request v, Log ERROR (FetchFailed v 3 (cause 2))])"
proof -
  have n: "net 0 = RequestException (cause 0)" "net 1 = RequestException (cause 1)"
    "net 2 = RequestException (cause 2)"
    using assms by simp_all
  have l2: "attempt_loop net v 3 2 = (Inr None, [Request v, Log ERROR (FetchFailed v 3 (cause 2))])"
    by (rule loop_exhausted) (simp_all add: n)
  have l1: "attempt_loop net v 3 1 =
      (Inr None, [Request v, Log WARNING (AttemptFailed 2 v (cause 1)), Sleep 2,
                  Request v, Log ERROR (FetchFailed v 3 (cause 2))])"
    using loop_retry [of 1 3 net "cause 1" v] n l2 by (simp add: numeral_2_eq_2)
  show ?thesis
    unfolding get_weather_report_def
    using loop_retry [of 0 3 net "cause 0" v] n l1 by (simp add: numeral_2_eq_2)
qed

text \<open>After \<open>j\<close> failed attempts the loop is at attempt \<open>j\<close>, two effects and a sleep per failure behind.\<close>

lemma after_failures:
  assumes "j < 3" and "\<forall>k<j. \<exists>c. net k = RequestException c"
  shows "fst (get_weather_report net v) = fst (attempt_loop net v 3 j)
       \<and> attempts_made (snd (get_weather_report net v))
           = j + attempts_made (snd (attempt_loop net v 3 j))
       \<and> delays (snd (get_weather_report net v))
           = replicate j 2 @ delays (snd (attempt_loop net v 3 j))
       \<and> (\<exists>effs. snd (get_weather_report net v) = effs @ snd (attempt_loop net v 3 j))"
proof -
  consider "j = 0" | "j = 1" | "j = 2" using assms(1) by linarith
  then show ?thesis
  proof cases
    case 1
    then show ?thesis by (simp add: get_weather_report_def)
  next
    case 2
    then obtain c where "net 0 = RequestException c" using assms(2) by auto
    then show ?thesis
      using 2 loop_retry [of 0 3 net c v]
      by (simp add: get_weather_report_def attempts_made_def)
  next
    case 3
    then have "\<exists>c. net 0 = RequestException c" "\<exists>d. net 1 = RequestException d"
      using assms(2) by simp_all
    then obtain c d where "net 0 = RequestException c" "net 1 = RequestException d"
      by blast
    then show ?thesis
      using 3 loop_retry [of 0 3 net c v] loop_retry [of 1 3 net d v]
      by (simp add: get_weather_report_def attempts_made_def numeral_2_eq_2)
  qed
qed

lemma loop_returns_text:
  "fst (attempt_loop net v tries a) = Inr (Some t) \<Longrightarrow>
   \<exists>j p raw. a \<le> j \<and> j < tries \<and> net j = Response p \<and> pre_tag p = Some raw \<and> t = strip raw"
proof (induction net v tries a rule: attempt_loop.induct)
  case (1 net version tries attempt)
  show ?case
  proof (cases "attempt < tries")
    case False
    then show ?thesis using "1.prems" by (subst (asm) attempt_loop.simps) simp
  next
    case True
    show ?thesis
    proof (cases "net attempt")
      case (Response p)
      then show ?thesis
        using "1.prems" True loop_response [of attempt tries net p version]
        by (cases "pre_tag p") auto
    next
      case (RequestException c)
      show ?thesis
      proof (cases "attempt < tries - 1")
        case False
        then show ?thesis
          using "1.prems" True RequestException loop_exhausted [of attempt tries net c version]
          by simp
      next
        case retry: True
        have next_attempt: "fst (attempt_loop net version tries (attempt + 1)) = Inr (Some t)"
          using "1.prems" retry RequestException loop_retry [of attempt tries net c version] by simp
        obtain j p raw where "attempt + 1 \<le> j" "j < tries" "net j = Response p"
          "pre_tag p = Some raw" "t = strip raw"
          using "1.IH" [OF True RequestException retry next_attempt] by blast
        then show ?thesis by (intro exI [of _ j] exI [of _ p] exI [of _ raw]) simp
      qed
    next
      case (ValueError x)
      then show ?thesis
        using "1.prems" True loop_value_error [of attempt tries net x version] by simp
    next
      case (Unexpected x)
      then show ?thesis
        using "1.prems" True loop_unexpected [of attempt tries net x version] by simp
    qed
  qed
qed

lemma returns_text:
  assumes "j < 3" and "\<forall>k<j. \<exists>c. net k = RequestException c"
    and "net j = Response p" and "pre_tag p = Some raw"
  shows "fst (get_weather_report net v) = Inr (Some (strip raw))"
proof -
  have "attempt_loop net v 3 j = (Inr (Some (strip raw)), [Request v])"
    using loop_response [of j 3 net p v] assms by simp
  then show ?thesis using after_failures [OF assms(1,2), of v] by simp
qed

lemma loop_requests:
  "(Request u \<in> set (snd (attempt_loop net v tries a)) \<longrightarrow> u = v)
   \<and> attempts_made (snd (attempt_loop net v tries a)) \<le> tries - a
   \<and> (a < tries \<longrightarrow> 1 \<le> attempts_made (snd (attempt_loop net v tries a)))"
proof (induction net v tries a rule: attempt_loop.induct)
  case (1 net version tries attempt)
  show ?case
  proof (cases "attempt < tries")
    case False
    then show ?thesis by (subst (1 2 3) attempt_loop.simps) (simp add: attempts_made_def)
  next
    case True
    show ?thesis
    proof (cases "net attempt")
      case (Response p)
      then show ?thesis
        using True loop_response [of attempt tries net p version]
        by (cases "pre_tag p") (auto simp: attempts_made_def)
    next
      case (RequestException c)
      show ?thesis
      proof (cases "attempt < tries - 1")
        case False
        then show ?thesis
          using True RequestException loop_exhausted [of attempt tries net c version]
          by (auto simp: attempts_made_def)
      next
        case retry: True
        show ?thesis
          using "1.IH" [OF True RequestException retry]
            loop_retry [OF retry, of net c version] RequestException retry
          by (auto simp: attempts_made_def)
      qed
    next
      case (ValueError x)
      then show ?thesis
        using True loop_value_error [of attempt tries net x version]
        by (auto simp: attempts_made_def)
    next
      case (Unexpected x)
      then show ?thesis
        using True loop_unexpected [of attempt tries net x version]
        by (auto simp: attempts_made_def)
    qed
  qed
qed

lemma missing_none: "fst (get_weather_report always_missing v) = Inr None"
  using gwr_first_response [of always_missing "\<lparr>pre_tag = None, divs = []\<rparr>" v]
  by (simp add: always_missing_def empty_page_def)

lemma failing_none: "fst (get_weather_report always_failing v) = Inr None"
  using all_failed [of always_failing "\<lambda>k. ''timed out''" v]
  by (simp add: always_failing_def)

text \<open>
  Claim C4. When every attempt for a version ends in a \<^verbatim>\<open>RequestException\<close>, the fetch
  sends exactly 3 requests, sleeps 2 seconds after the first and after the second and not
  after the third, logs the failure and returns \<^verbatim>\<open>None\<close>.
\<close>

theorem retry_bound:
  assumes "\<forall>k<3. net k = RequestException (cause k)"
  shows "get_weather_report net v =
           (Inr None,
            [Request v, Log WARNING (AttemptFailed 1 v (cause 0)), Sleep 2,
             Request v, Log WARNING (AttemptFailed 2 v (cause 1)), Sleep 2,
             Request v, Log ERROR (FetchFailed v 3 (cause 2))])
       \<and> attempts_made (snd (get_weather_report net v)) = 3
       \<and> delays (snd (get_weather_report net v)) = [2, 2]"
  by (simp add: all_failed [OF assms] attempts_made_def)

theorem retry_bound_witness:
  "always_failing 2 = RequestException ''timed out''
   \<and> fst (get_weather_report always_failing 7) = Inr None
   \<and> attempts_made (snd (get_weather_report always_failing 7)) = 3
   \<and> delays (snd (get_weather_report always_failing 7)) = [2, 2]"
  using retry_bound [of always_failing "\<lambda>k. ''timed out''" 7]
  by (simp add: always_failing_def attempts_made_def)

text \<open>
  Claim C5. When an attempt gets a page and the page has no \<^verbatim>\<open>pre.glossaryProduct\<close> block,
  the fetch returns \<^verbatim>\<open>None\<close> at once: after \<open>j\<close> failed attempts and the attempt that
  found no block, \<open>j + 1\<close> requests were sent and nothing follows the warning; the only
  delays are the \<open>j\<close> that followed the failed attempts.
\<close>

theorem missing_is_immediate:
  assumes "j < 3" and "\<forall>k<j. \<exists>c. net k = RequestException c"
    and "net j = Response p" and "pre_tag p = None"
  shows "fst (get_weather_report net v) = Inr None
       \<and> attempts_made (snd (get_weather_report net v)) = j + 1
       \<and> delays (snd (get_weather_report net v)) = replicate j 2
       \<and> (\<exists>effs. snd (get_weather_report net v)
                    = effs @ [Request v, Log WARNING (NoDataFound v)])"
proof -
  have "attempt_loop net v 3 j = (Inr None, [Request v, Log WARNING (NoDataFound v)])"
    using loop_response [of j 3 net p v] assms by simp
  then show ?thesis
    using after_failures [OF assms(1,2), of v] by (simp add: attempts_made_def)
qed

theorem missing_is_immediate_witness:
  "failing_then 1 empty_page 0 = RequestException ''timed out''
   \<and> failing_then 1 empty_page 1 = empty_page
   \<and> fst (get_weather_report (failing_then 1 empty_page) 7) = Inr None
   \<and> attempts_made (snd (get_weather_report (failing_then 1 empty_page) 7)) = 2
   \<and> delays (snd (get_weather_report (failing_then 1 empty_page) 7)) = [2]"
  using missing_is_immediate [of 1 "failing_then 1 empty_page" "\<lparr>pre_tag = None, divs = []\<rparr>" 7]
  by (simp add: failing_then_def empty_page_def)

text \<open>
  Claim C3 says that Missing and Failed are distinguishable outcomes and that Failed carries
  its cause. A fetch that finds no product block and a fetch whose three attempts all time
  out return the same value, \<^verbatim>\<open>None\<close>.
\<close>

theorem outcome_counterexample:
  "fst (get_weather_report always_missing 1) = Inr None
   \<and> fst (get_weather_report always_failing 1) = Inr None"
proof -
  have "fst (get_weather_report always_missing 1) = Inr None"
    using gwr_first_response [of always_missing "\<lparr>pre_tag = None, divs = []\<rparr>" 1]
    by (simp add: always_missing_def empty_page_def)
  moreover have "fst (get_weather_report always_failing 1) = Inr None"
    using all_failed [of always_failing "\<lambda>k. ''timed out''" 1]
    by (simp add: always_failing_def)
  ultimately show ?thesis by simp
qed

text \<open>
  Claim C3, amended. After \<open>j\<close> failed attempts: a page with a product block makes the
  fetch return the trimmed text of the block; a page without one makes it return
  \<^verbatim>\<open>None\<close> after a warning; and when all three attempts failed it returns \<^verbatim>\<open>None\<close>
  as well, after an error record that carries the error of the last attempt. The returned
  value alone does not tell Missing from Failed; the last log record does.
\<close>

theorem outcome_encoding:
  assumes "j \<le> 3" and "\<forall>k<j. net k = RequestException (cause k)"
  shows "(j = 3 \<longrightarrow>
            fst (get_weather_report net v) = Inr None
          \<and> last (snd (get_weather_report net v)) = Log ERROR (FetchFailed v 3 (cause 2)))
       \<and> (j < 3 \<and> net j = Response p \<and> pre_tag p = None \<longrightarrow>
            fst (get_weather_report net v) = Inr None
          \<and> last (snd (get_weather_report net v)) = Log WARNING (NoDataFound v))
       \<and> (j < 3 \<and> net j = Response p \<and> pre_tag p = Some raw \<longrightarrow>
            fst (get_weather_report net v) = Inr (Some (strip raw)))"
proof (intro conjI impI)
  assume "j = 3"
  then have "\<forall>k<3. net k = RequestException (cause k)" using assms(2) by simp
  then have g: "get_weather_report net v =
           (Inr None,
            [Request v, Log WARNING (AttemptFailed 1 v (cause 0)), Sleep 2,
             Request v, Log WARNING (AttemptFailed 2 v (cause 1)), Sleep 2,
             Request v, Log ERROR (FetchFailed v 3 (cause 2))])"
    by (rule all_failed)
  show "fst (get_weather_report net v) = Inr None" by (simp add: g)
  show "last (snd (get_weather_report net v)) = Log ERROR (FetchFailed v 3 (cause 2))"
    by (simp add: g)
next
  assume a: "j < 3 \<and> net j = Response p \<and> pre_tag p = None"
  have f: "\<forall>k<j. \<exists>c. net k = RequestException c" using assms(2) by blast
  have l: "attempt_loop net v 3 j = (Inr None, [Request v, Log WARNING (NoDataFound v)])"
    using loop_response [of j 3 net p v] a by simp
  show "fst (get_weather_report net v) = Inr None"
    using after_failures [of j net v] a f l by simp
  obtain effs where "snd (get_weather_report net v) = effs @ snd (attempt_loop net v 3 j)"
    using after_failures [of j net v] a f by blast
  then show "last (snd (get_weather_report net v)) = Log WARNING (NoDataFound v)"
    by (simp add: l)
next
  assume a: "j < 3 \<and> net j = Response p \<and> pre_tag p = Some raw"
  have f: "\<forall>k<j. \<exists>c. net k = RequestException c" using assms(2) by blast
  have l: "attempt_loop net v 3 j = (Inr (Some (strip raw)), [Request v])"
    using loop_response [of j 3 net p v] a by simp
  show "fst (get_weather_report net v) = Inr (Some (strip raw))"
    using after_failures [of j net v] a f l by simp
qed

theorem outcome_encoding_witness:
  "fst (get_weather_report always_failing 5) = Inr None
   \<and> last (snd (get_weather_report always_failing 5)) = Log ERROR (FetchFailed 5 3 ''timed out'')
   \<and> fst (get_weather_report (failing_then 1 empty_page) 5) = Inr None
   \<and> last (snd (get_weather_report (failing_then 1 empty_page) 5)) = Log WARNING (NoDataFound 5)
   \<and> fst (get_weather_report (failing_then 2 (product_page '' ok '')) 5) = Inr (Some ''ok'')"
proof -
  have a: "fst (get_weather_report always_failing 5) = Inr None
     \<and> last (snd (get_weather_report always_failing 5)) = Log ERROR (FetchFailed 5 3 ''timed out'')"
    using outcome_encoding [of 3 always_failing "\<lambda>k. ''timed out''" 5]
    by (simp add: always_failing_def)
  have b: "fst (get_weather_report (failing_then 1 empty_page) 5) = Inr None
     \<and> last (snd (get_weather_report (failing_then 1 empty_page) 5)) = Log WARNING (NoDataFound 5)"
    using outcome_encoding [of 1 "failing_then 1 empty_page" "\<lambda>k. ''timed out''" 5
        "\<lparr>pre_tag = None, divs = []\<rparr>"]
    by (simp add: failing_then_def empty_page_def)
  have s: "strip '' ok '' = ''ok''" by (simp add: py_eval)
  have c: "fst (get_weather_report (failing_then 2 (product_page '' ok '')) 5) = Inr (Some ''ok'')"
    using outcome_encoding [of 2 "failing_then 2 (product_page '' ok '')" "\<lambda>k. ''timed out''" 5
        "\<lparr>pre_tag = Some '' ok '', divs = []\<rparr>" "'' ok ''"] s
    by (simp add: failing_then_def product_page_def)
  show ?thesis using a b c by simp
qed

section \<open>Discovery\<close>

lemma find_versions_None:
  "find_versions ds = None \<longleftrightarrow>
     (\<forall>d\<in>set ds. \<not> contains (div_text d) ''Versions:'' \<or> div_links d = [])"
  by (induction ds) auto

lemma find_versions_Some:
  "find_versions ds = Some t \<Longrightarrow>
   \<exists>d\<in>set ds. contains (div_text d) ''Versions:'' \<and> div_links d \<noteq> [] \<and> t = last (div_links d)"
  by (induction ds) (auto split: if_splits)

lemma find_versions_first:
  assumes "\<forall>d'\<in>set before. \<not> contains (div_text d') ''Versions:'' \<or> div_links d' = []"
    and "contains (div_text d) ''Versions:''" and "div_links d \<noteq> []"
  shows "find_versions (before @ d # rest) = Some (last (div_links d))"
  using assms by (induction before) auto

lemma discover_found:
  assumes "divs p = before @ d # rest"
    and "\<forall>d'\<in>set before. \<not> contains (div_text d') ''Versions:'' \<or> div_links d' = []"
    and "contains (div_text d) ''Versions:''" and "div_links d \<noteq> []"
  shows "fst (get_total_versions (Response p))
       = (case py_int (last (div_links d)) of None \<Rightarrow> Inr 0 | Some n \<Rightarrow> Inr n)"
  using find_versions_first [OF assms(2-4), of rest] assms(1)
  by (simp add: get_total_versions_def split: option.split)

lemma versions_page_found:
  "links \<noteq> [] \<Longrightarrow>
   divs \<lparr>pre_tag = None,
         divs = [\<lparr>div_text = ''Search'', div_links = []\<rparr>]
                @ \<lparr>div_text = ''Versions: '' @ concat links, div_links = links\<rparr> # []\<rparr>
     = [\<lparr>div_text = ''Search'', div_links = []\<rparr>]
       @ \<lparr>div_text = ''Versions: '' @ concat links, div_links = links\<rparr> # []
   \<and> (\<forall>d'\<in>set [\<lparr>div_text = ''Search'', div_links = []\<rparr>].
         \<not> contains (div_text d') ''Versions:'' \<or> div_links d' = [])
   \<and> contains (div_text \<lparr>div_text = ''Versions: '' @ concat links, div_links = links\<rparr>)
         ''Versions:''
   \<and> div_links \<lparr>div_text = ''Versions: '' @ concat links, div_links = links\<rparr> \<noteq> []"
  by (simp add: startswith_def)

lemma versions_page_eq:
  "versions_page links =
     Response \<lparr>pre_tag = None,
               divs = [\<lparr>div_text = ''Search'', div_links = []\<rparr>]
                      @ \<lparr>div_text = ''Versions: '' @ concat links, div_links = links\<rparr> # []\<rparr>"
  by (simp add: versions_page_def)

lemma discovery_a: "get_total_versions (discovery scenario_a) = (Inr 3, [Request 1])"
  by (simp add: scenario_a_def versions_page_def get_total_versions_def py_eval)

lemma discovery_b: "fst (get_total_versions (discovery scenario_b)) = Inr 0"
  by (simp add: scenario_b_def versions_page_def get_total_versions_def py_eval)

lemma discovery_blank: "fst (get_total_versions (discovery scenario_blank)) = Inr 1"
  by (simp add: scenario_blank_def versions_page_def get_total_versions_def py_eval)

text \<open>
  Claim C6 says that discovery always returns a non-negative number. A page whose last
  version link reads \<^verbatim>\<open>-5\<close> makes \<^verbatim>\<open>int\<close> succeed, and the function returns \<open>-5\<close>.
\<close>

theorem discover_counterexample:
  "fst (get_total_versions (versions_page [''1'', ''-5''])) = Inr (- 5)"
  by (simp add: versions_page_def get_total_versions_def py_eval)

text \<open>
  Claim C6, amended. Discovery sends one request and never a second one. It returns 0 when
  the request or the parse raises a \<^verbatim>\<open>RequestException\<close> or a \<^verbatim>\<open>ValueError\<close>, and when
  no \<^verbatim>\<open>div\<close> that contains \<^verbatim>\<open>Versions:\<close> has a link. Otherwise the first such
  \<^verbatim>\<open>div\<close> decides, by the text of its last link: discovery returns 0 when \<^verbatim>\<open>int\<close>
  refuses the text, as it does for a text with a character that is no digit, sign,
  underscore or whitespace of \<^verbatim>\<open>int\<close>, and for a text of more than \<open>max_str_digits\<close>
  digits; and it returns the integer when \<^verbatim>\<open>int\<close> accepts the text, as it does for the
  decimal form of any integer of at most \<open>max_str_digits\<close> digits, negative ones too,
  between whitespace.
\<close>

theorem discover_result:
  "attempts_made (snd (get_total_versions r)) = 1
   \<and> fst (get_total_versions (RequestException c)) = Inr 0
   \<and> fst (get_total_versions (ValueError c)) = Inr 0
   \<and> ((\<forall>d\<in>set (divs p). \<not> contains (div_text d) ''Versions:'' \<or> div_links d = [])
        \<longrightarrow> fst (get_total_versions (Response p)) = Inr 0)
   \<and> (divs p = before @ d # rest
        \<and> (\<forall>d'\<in>set before. \<not> contains (div_text d') ''Versions:'' \<or> div_links d' = [])
        \<and> contains (div_text d) ''Versions:'' \<and> div_links d \<noteq> []
      \<longrightarrow> (py_int (last (div_links d)) = None
             \<longrightarrow> fst (get_total_versions (Response p)) = Inr 0)
        \<and> (py_int (last (div_links d)) = Some n
             \<longrightarrow> fst (get_total_versions (Response p)) = Inr n)
        \<and> (last (div_links d) = lead @ str_int n @ trail
             \<and> (\<forall>x\<in>set lead. int_isspace x) \<and> (\<forall>x\<in>set trail. int_isspace x)
             \<and> \<bar>n\<bar> < 10 ^ max_str_digits
             \<longrightarrow> fst (get_total_versions (Response p)) = Inr n)
        \<and> (x \<in> set (last (div_links d)) \<and> \<not> isdigit x \<and> \<not> int_isspace x
             \<and> x \<noteq> CHR ''+'' \<and> x \<noteq> CHR ''-'' \<and> x \<noteq> CHR ''_''
             \<longrightarrow> fst (get_total_versions (Response p)) = Inr 0)
        \<and> (max_str_digits < length (filter isdigit (last (div_links d)))
             \<longrightarrow> fst (get_total_versions (Response p)) = Inr 0))"
proof (intro conjI impI)
  show "attempts_made (snd (get_total_versions r)) = 1"
    by (simp add: get_total_versions_def attempts_made_def split: response.split option.split)
  show "fst (get_total_versions (RequestException c)) = Inr 0"
    by (simp add: get_total_versions_def)
  show "fst (get_total_versions (ValueError c)) = Inr 0"
    by (simp add: get_total_versions_def)
next
  assume "\<forall>d\<in>set (divs p). \<not> contains (div_text d) ''Versions:'' \<or> div_links d = []"
  then have "find_versions (divs p) = None" by (simp add: find_versions_None)
  then show "fst (get_total_versions (Response p)) = Inr 0"
    by (simp add: get_total_versions_def)
next
  assume a: "divs p = before @ d # rest
        \<and> (\<forall>d'\<in>set before. \<not> contains (div_text d') ''Versions:'' \<or> div_links d' = [])
        \<and> contains (div_text d) ''Versions:'' \<and> div_links d \<noteq> []"
  then have f: "fst (get_total_versions (Response p))
       = (case py_int (last (div_links d)) of None \<Rightarrow> Inr 0 | Some n \<Rightarrow> Inr n)"
    using discover_found [of p before d rest] by blast
  {
    assume "py_int (last (div_links d)) = None"
    then show "fst (get_total_versions (Response p)) = Inr 0" by (simp add: f)
  }
  {
    assume "py_int (last (div_links d)) = Some n"
    then show "fst (get_total_versions (Response p)) = Inr n" by (simp add: f)
  }
  {
    assume "last (div_links d) = lead @ str_int n @ trail
             \<and> (\<forall>x\<in>set lead. int_isspace x) \<and> (\<forall>x\<in>set trail. int_isspace x)
             \<and> \<bar>n\<bar> < 10 ^ max_str_digits"
    then have "py_int (last (div_links d)) = Some n" by (simp add: py_int_str_int)
    then show "fst (get_total_versions (Response p)) = Inr n" by (simp add: f)
  }
  {
    assume "x \<in> set (last (div_links d)) \<and> \<not> isdigit x \<and> \<not> int_isspace x
             \<and> x \<noteq> CHR ''+'' \<and> x \<noteq> CHR ''-'' \<and> x \<noteq> CHR ''_''"
    then have "py_int (last (div_links d)) = None" by (intro py_int_bad_char [of x]) simp_all
    then show "fst (get_total_versions (Response p)) = Inr 0" by (simp add: f)
  }
  {
    assume "max_str_digits < length (filter isdigit (last (div_links d)))"
    then have "py_int (last (div_links d)) = None" by (rule py_int_too_long)
    then show "fst (get_total_versions (Response p)) = Inr 0" by (simp add: f)
  }
qed

theorem discover_result_witness:
  "fst (get_total_versions (RequestException ''timed out'')) = Inr 0
   \<and> fst (get_total_versions (ValueError ''bad response'')) = Inr 0
   \<and> fst (get_total_versions empty_page) = Inr 0
   \<and> fst (get_total_versions (versions_page [''1'', ''two''])) = Inr 0
   \<and> fst (get_total_versions (versions_page [''1'', [CHR 0x1C, CHR ''5'']])) = Inr 0
   \<and> fst (get_total_versions (versions_page [''1'', '' -5 ''])) = Inr (- 5)
   \<and> attempts_made (snd (get_total_versions (versions_page [''1'', '' -5 '']))) = 1"
proof -
  let ?s = "\<lparr>div_text = ''Search'', div_links = []\<rparr>"
  let ?v = "\<lambda>links. \<lparr>div_text = ''Versions: '' @ concat links, div_links = links\<rparr>"
  let ?p = "\<lambda>links. \<lparr>pre_tag = None, divs = [?s] @ ?v links # []\<rparr>"
  have ne: "[''1'', ''two''] \<noteq> []" "[''1'', [CHR 0x1C, CHR ''5'']] \<noteq> []"
    "[''1'', '' -5 ''] \<noteq> []"
    by simp_all
  have a: "fst (get_total_versions (RequestException ''timed out'')) = Inr 0"
    by (rule discover_result [where c = "''timed out''", THEN conjunct2, THEN conjunct1])
  have b: "fst (get_total_versions (ValueError ''bad response'')) = Inr 0"
    by (rule discover_result [where c = "''bad response''", THEN conjunct2, THEN conjunct2,
          THEN conjunct1])
  have "\<forall>d\<in>set (divs \<lparr>pre_tag = None, divs = []\<rparr>).
          \<not> contains (div_text d) ''Versions:'' \<or> div_links d = []"
    by simp
  then have c: "fst (get_total_versions empty_page) = Inr 0"
    unfolding empty_page_def
    by (rule discover_result [where p = "\<lparr>pre_tag = None, divs = []\<rparr>", THEN conjunct2,
          THEN conjunct2, THEN conjunct2, THEN conjunct1, THEN mp])
  have "CHR ''t'' \<in> set (last (div_links (?v [''1'', ''two''])))
      \<and> \<not> isdigit (CHR ''t'') \<and> \<not> int_isspace (CHR ''t'')
      \<and> CHR ''t'' \<noteq> CHR ''+'' \<and> CHR ''t'' \<noteq> CHR ''-'' \<and> CHR ''t'' \<noteq> CHR ''_''"
    by (simp add: isdigit_def int_isspace_def)
  then have d: "fst (get_total_versions (versions_page [''1'', ''two''])) = Inr 0"
    unfolding versions_page_eq
    by (rule discover_result [where p = "?p [''1'', ''two'']" and before = "[?s]"
          and d = "?v [''1'', ''two'']" and rest = "[]" and x = "CHR ''t''",
          THEN conjunct2, THEN conjunct2, THEN conjunct2, THEN conjunct2, THEN mp,
          OF versions_page_found [OF ne(1)],
          THEN conjunct2, THEN conjunct2, THEN conjunct2, THEN conjunct1, THEN mp])
  have "CHR 0x1C \<in> set (last (div_links (?v [''1'', [CHR 0x1C, CHR ''5'']])))
      \<and> \<not> isdigit (CHR 0x1C) \<and> \<not> int_isspace (CHR 0x1C)
      \<and> CHR 0x1C \<noteq> CHR ''+'' \<and> CHR 0x1C \<noteq> CHR ''-'' \<and> CHR 0x1C \<noteq> CHR ''_''"
    by (simp add: isdigit_def int_isspace_def)
  then have e: "fst (get_total_versions (versions_page [''1'', [CHR 0x1C, CHR ''5'']])) = Inr 0"
    unfolding versions_page_eq
    by (rule discover_result [where p = "?p [''1'', [CHR 0x1C, CHR ''5'']]" and before = "[?s]"
          and d = "?v [''1'', [CHR 0x1C, CHR ''5'']]" and rest = "[]" and x = "CHR 0x1C",
          THEN conjunct2, THEN conjunct2, THEN conjunct2, THEN conjunct2, THEN mp,
          OF versions_page_found [OF ne(2)],
          THEN conjunct2, THEN conjunct2, THEN conjunct2, THEN conjunct1, THEN mp])
  have five: "str_int (- 5) = ''-5''"
    by (simp add: str_int_def str_nat.simps [of 5] digit_char_def)
  have small: "\<bar>- 5 :: int\<bar> < 10 ^ max_str_digits"
  proof -
    have "(10::int) ^ 1 \<le> 10 ^ max_str_digits"
      by (rule power_increasing) (simp_all add: max_str_digits_def)
    then show ?thesis by simp
  qed
  have "last (div_links (?v [''1'', '' -5 ''])) = '' '' @ str_int (- 5) @ '' ''
      \<and> (\<forall>x\<in>set '' ''. int_isspace x) \<and> (\<forall>x\<in>set '' ''. int_isspace x)
      \<and> \<bar>- 5 :: int\<bar> < 10 ^ max_str_digits"
    using small by (simp add: five int_isspace_def)
  then have f: "fst (get_total_versions (versions_page [''1'', '' -5 ''])) = Inr (- 5)"
    unfolding versions_page_eq
    by (rule discover_result [where p = "?p [''1'', '' -5 '']" and before = "[?s]"
          and d = "?v [''1'', '' -5 '']" and rest = "[]" and n = "- 5" and lead = "'' ''"
          and trail = "'' ''",
          THEN conjunct2, THEN conjunct2, THEN conjunct2, THEN conjunct2, THEN mp,
          OF versions_page_found [OF ne(3)],
          THEN conjunct2, THEN conjunct2, THEN conjunct1, THEN mp])
  have g: "attempts_made (snd (get_total_versions (versions_page [''1'', '' -5 '']))) = 1"
    by (rule discover_result [where r = "versions_page [''1'', '' -5 '']", THEN conjunct1])
  show ?thesis using a b c d e f g by simp
qed

section \<open>The worker pool\<close>

text \<open>
  Claim C8. The worker count is 5 when the CPU count is undetermined, and otherwise five
  times the CPU count, capped at 32.
\<close>

theorem worker_count:
  "get_optimal_worker_count None = 5
   \<and> get_optimal_worker_count (Some n) = min (n * 5) 32
   \<and> get_optimal_worker_count (Some n) \<le> 32"
  by (simp add: get_optimal_worker_count_def)

theorem worker_count_witness:
  "get_optimal_worker_count (Some 4) = 20 \<and> get_optimal_worker_count (Some 8) = 32"
  using worker_count [of 4] worker_count [of 8] by simp

lemma map_of_setitem: "map_of (setitem d k v) = (map_of d)(k \<mapsto> v)"
  by (induction d k v rule: setitem.induct) auto

lemma fst_set_setitem: "fst ` set (setitem d k v) = insert k (fst ` set d)"
  by (induction d k v rule: setitem.induct) auto

lemma distinct_setitem: "distinct (map fst d) \<Longrightarrow> distinct (map fst (setitem d k v))"
  by (induction d k v rule: setitem.induct) (auto simp: fst_set_setitem)

lemma fetch_reports_unfold:
  "fetch_reports e versions =
     \<lparr>max_workers = get_optimal_worker_count (cpu_count e),
      submitted = versions,
      results = fst (fold (collect (map (submit e) versions))
                       (as_completed (finish e) (length versions)) ([], [])),
      pool_log = snd (fold (collect (map (submit e) versions))
                        (as_completed (finish e) (length versions)) ([], []))\<rparr>"
  by (simp add: fetch_reports_def fetch_reports_run_def Let_def submit_def comp_def)

lemma fst_collect:
  "i < length versions \<Longrightarrow>
   fst (collect (map (submit e) versions) i acc) =
     (case kept (network e) (versions ! i) of
        Some t \<Rightarrow> setitem (fst acc) (versions ! i) t
      | None \<Rightarrow> fst acc)"
  by (simp add: collect_def submit_def kept_def Let_def split: sum.split option.split)

lemma fold_collect_map_of:
  "\<forall>i\<in>set is. i < length versions \<Longrightarrow>
   map_of (fst (fold (collect (map (submit e) versions)) is acc)) v =
     (if v \<in> (\<lambda>i. versions ! i) ` set is \<and> kept (network e) v \<noteq> None then kept (network e) v
      else map_of (fst acc) v)"
proof (induction "is" arbitrary: acc)
  case Nil
  show ?case by simp
next
  case (Cons i "is")
  then have i: "i < length versions" and r: "\<forall>i\<in>set is. i < length versions" by simp_all
  show ?case
    by (cases "kept (network e) (versions ! i)")
      (auto simp: Cons.IH [OF r] fst_collect [OF i] map_of_setitem)
qed

lemma fold_collect_distinct:
  "\<forall>i\<in>set is. i < length versions \<Longrightarrow> distinct (map fst (fst acc)) \<Longrightarrow>
   distinct (map fst (fst (fold (collect (map (submit e) versions)) is acc)))"
proof (induction "is" arbitrary: acc)
  case Nil
  then show ?case by simp
next
  case (Cons i "is")
  then have i: "i < length versions" and r: "\<forall>i\<in>set is. i < length versions" by simp_all
  have "distinct (map fst (fst (collect (map (submit e) versions) i acc)))"
    using Cons.prems(2) by (simp add: fst_collect [OF i] distinct_setitem split: option.split)
  then show ?case using Cons.IH [OF r] by simp
qed

lemma set_as_completed: "set (as_completed fin n) = {0..<n}"
  by (simp add: as_completed_def)

lemma nth_image: "(\<lambda>i. versions ! i) ` {0..<length versions} = set versions"
  by (auto simp: set_conv_nth)

lemma results_map_of:
  "map_of (results (fetch_reports e versions)) v = (if v \<in> set versions then kept (network e) v else None)"
  by (simp add: fetch_reports_unfold fold_collect_map_of set_as_completed nth_image)

lemma results_distinct: "distinct (keys (results (fetch_reports e versions)))"
  by (simp add: fetch_reports_unfold fold_collect_distinct set_as_completed keys_def)

lemma results_keys:
  "set (keys (results (fetch_reports e versions))) = {v \<in> set versions. kept (network e) v \<noteq> None}"
proof -
  have "set (keys (results (fetch_reports e versions))) = dom (map_of (results (fetch_reports e versions)))"
    by (simp add: keys_def dom_map_of_conv_image_fst)
  also have "\<dots> = {v \<in> set versions. kept (network e) v \<noteq> None}"
    by (auto simp: results_map_of dom_def)
  finally show ?thesis .
qed

lemma results_length: "length (results (fetch_reports e versions)) \<le> length versions"
proof -
  have "length (results (fetch_reports e versions)) = length (keys (results (fetch_reports e versions)))"
    by (simp add: keys_def)
  also have "\<dots> = card (set (keys (results (fetch_reports e versions))))"
    using results_distinct [of e versions] by (simp add: distinct_card)
  also have "\<dots> \<le> card (set versions)"
    by (rule card_mono) (auto simp: results_keys)
  also have "\<dots> \<le> length versions" by (rule card_length)
  finally show ?thesis .
qed

lemma length_filter_all: "length (filter P xs) = length xs \<longleftrightarrow> (\<forall>x\<in>set xs. P x)"
proof (induction xs)
  case Nil
  show ?case by simp
next
  case (Cons x xs)
  have "length (filter P xs) \<noteq> Suc (length xs)"
    using length_filter_le [of P xs] by arith
  with Cons show ?case by auto
qed

lemma sorted_keys:
  "sort (keys (results (fetch_reports e [1..n]))) = filter (\<lambda>v. kept (network e) v \<noteq> None) [1..n]"
proof (rule sorted_distinct_set_unique)
  show "sorted (sort (keys (results (fetch_reports e [1..n]))))" by simp
  show "distinct (sort (keys (results (fetch_reports e [1..n]))))"
    by (simp add: results_distinct)
  show "sorted (filter (\<lambda>v. kept (network e) v \<noteq> None) [1..n])" by (simp add: sorted_wrt_filter)
  show "distinct (filter (\<lambda>v. kept (network e) v \<noteq> None) [1..n])" by simp
  show "set (sort (keys (results (fetch_reports e [1..n])))) = set (filter (\<lambda>v. kept (network e) v \<noteq> None) [1..n])"
    by (auto simp: results_keys)
qed

lemma results_full:
  "length (results (fetch_reports e [1..n])) = length [1..n]
   \<longleftrightarrow> (\<forall>v\<in>{1..n}. kept (network e) v \<noteq> None)"
proof -
  have "length (results (fetch_reports e [1..n])) = length (sort (keys (results (fetch_reports e [1..n]))))"
    by (simp add: keys_def)
  also have "\<dots> = length (filter (\<lambda>v. kept (network e) v \<noteq> None) [1..n])"
    by (simp only: sorted_keys)
  finally have "length (results (fetch_reports e [1..n])) = length (filter (\<lambda>v. kept (network e) v \<noteq> None) [1..n])" .
  then show ?thesis
    using length_filter_all [of "\<lambda>v. kept (network e) v \<noteq> None" "[1..n]"] by simp
qed

lemma kept_trimmed:
  assumes "kept net v = Some t"
  shows "t \<noteq> [] \<and> fst (get_weather_report (net v) v) = Inr (Some t)
       \<and> (\<exists>j p raw. j < 3 \<and> net v j = Response p \<and> pre_tag p = Some raw \<and> t = strip raw)"
proof -
  have g: "fst (get_weather_report (net v) v) = Inr (Some t)" and ne: "t \<noteq> []"
    using assms by (auto simp: kept_def split: sum.splits option.splits if_splits)
  have "\<exists>j p raw. 0 \<le> j \<and> j < 3 \<and> net v j = Response p \<and> pre_tag p = Some raw \<and> t = strip raw"
    using g unfolding get_weather_report_def by (rule loop_returns_text)
  then show ?thesis using g ne by blast
qed

lemma kept_a:
  "kept scenario_a_network 1 = Some ''alpha''" "kept scenario_a_network 2 = None"
  "kept scenario_a_network 3 = Some ''gamma''"
  using gwr_first_response [of "scenario_a_network 1" "\<lparr>pre_tag = Some ''alpha'', divs = []\<rparr>" 1]
    gwr_first_response [of "scenario_a_network 2" "\<lparr>pre_tag = None, divs = []\<rparr>" 2]
    gwr_first_response [of "scenario_a_network 3" "\<lparr>pre_tag = Some '' gamma '', divs = []\<rparr>" 3]
  by (simp_all add: kept_def scenario_a_network_def product_page_def empty_page_def py_eval)

lemma kept_blank: "kept blank_network 1 = None"
  using gwr_first_response [of "blank_network 1" "\<lparr>pre_tag = Some ''  '', divs = []\<rparr>" 1]
  by (simp add: kept_def blank_network_def product_page_def py_eval)

text \<open>
  Claim C2 says that every attempted version is a key of the final mapping. In scenario A
  three versions are submitted and the mapping has two keys: version 2, whose page has no
  product block, left no entry.
\<close>

theorem results_counterexample:
  "submitted (fetch_reports scenario_a [1, 2, 3]) = [1, 2, 3]
   \<and> keys (results (fetch_reports scenario_a [1, 2, 3])) = [3, 1]"
  by (simp add: fetch_reports_unfold as_completed_def scenario_a_def collect_def submit_def
      scenario_a_network_def product_page_def empty_page_def gwr_first_response keys_def
      py_eval)

text \<open>
  Claim C2, amended. The final mapping holds exactly the attempted versions whose fetch
  returned a non-empty text, each once and with that text; a version whose fetch returned
  \<^verbatim>\<open>None\<close> or the empty string, or raised, has no entry. So the mapping has at most as
  many entries as versions were submitted, and as many only when every fetch returned a
  non-empty text.
\<close>

theorem results_keep_nonempty:
  "map_of (results (fetch_reports e [1..n])) v
     = (if v \<in> {1..n} then kept (network e) v else None)
   \<and> distinct (keys (results (fetch_reports e [1..n])))
   \<and> length (results (fetch_reports e [1..n])) \<le> length (submitted (fetch_reports e [1..n]))
   \<and> (length (results (fetch_reports e [1..n])) = length (submitted (fetch_reports e [1..n]))
        \<longleftrightarrow> (\<forall>v\<in>{1..n}. kept (network e) v \<noteq> None))"
proof -
  have s: "submitted (fetch_reports e [1..n]) = [1..n]" by (simp add: fetch_reports_unfold)
  show ?thesis
    unfolding s using results_full [of e n] results_length [of e "[1..n]"]
    by (simp add: results_map_of results_distinct)
qed

theorem results_keep_nonempty_witness:
  "map_of (results (fetch_reports scenario_a [1..3])) 1 = Some ''alpha''
   \<and> map_of (results (fetch_reports scenario_a [1..3])) 2 = None
   \<and> length (results (fetch_reports scenario_a [1..3]))
       \<noteq> length (submitted (fetch_reports scenario_a [1..3]))"
proof -
  have n: "network scenario_a = scenario_a_network" by (simp add: scenario_a_def)
  have "\<not> (\<forall>v\<in>{1..3}. kept (network scenario_a) v \<noteq> None)"
    using kept_a(2) by (auto simp: n intro!: bexI [of _ 2])
  then show ?thesis
    using results_keep_nonempty [of scenario_a 3 1] results_keep_nonempty [of scenario_a 3 2]
      kept_a
    by (simp add: n)
qed

lemma collect_swap:
  assumes "fst (get_weather_report (network e v) v) = Inr (Some [])"
    and "fst (get_weather_report m v) = Inr None"
    and "i < length versions"
  shows "collect (map (submit (e\<lparr>network := (network e)(v := m)\<rparr>)) versions) i
       = collect (map (submit e) versions) i"
proof (intro ext)
  fix acc
  show "collect (map (submit (e\<lparr>network := (network e)(v := m)\<rparr>)) versions) i acc
      = collect (map (submit e) versions) i acc"
    using assms(3)
    by (cases "versions ! i = v") (simp_all add: collect_def submit_def Let_def assms(1,2))
qed

lemma fetch_reports_swap:
  assumes "fst (get_weather_report (network e v) v) = Inr (Some [])"
    and "fst (get_weather_report m v) = Inr None"
  shows "fetch_reports (e\<lparr>network := (network e)(v := m)\<rparr>) versions = fetch_reports e versions"
proof -
  have "fold (collect (map (submit (e\<lparr>network := (network e)(v := m)\<rparr>)) versions))
          (as_completed (finish e) (length versions)) ([], [])
      = fold (collect (map (submit e) versions))
          (as_completed (finish e) (length versions)) ([], [])"
    by (rule fold_cong [OF refl refl]) (simp add: set_as_completed collect_swap [OF assms])
  then show ?thesis by (simp add: fetch_reports_unfold)
qed

lemma submit_version: "fut_version (submit e v) = v"
  by (simp add: submit_def)

lemma submit_fetch:
  "fut_result (submit e v)
     = fst (get_weather_report (network e (fut_version (submit e v))) (fut_version (submit e v)))
   \<and> fut_effects (submit e v)
     = snd (get_weather_report (network e (fut_version (submit e v))) (fut_version (submit e v)))
   \<and> 1 \<le> attempts_made (fut_effects (submit e v))
   \<and> attempts_made (fut_effects (submit e v)) \<le> 3
   \<and> (\<forall>u. Request u \<in> set (fut_effects (submit e v)) \<longrightarrow> u = fut_version (submit e v))"
proof -
  have v: "fut_version (submit e v) = v" by (simp add: submit_def)
  have a: "1 \<le> attempts_made (snd (get_weather_report (network e v) v))"
    "attempts_made (snd (get_weather_report (network e v) v)) \<le> 3"
    using loop_requests [of 0 "network e v" v 3 0] by (simp_all add: get_weather_report_def)
  have r: "\<forall>u. Request u \<in> set (snd (get_weather_report (network e v) v)) \<longrightarrow> u = v"
  proof (intro allI impI)
    fix u assume "Request u \<in> set (snd (get_weather_report (network e v) v))"
    then show "u = v"
      using loop_requests [of u "network e v" v 3 0] unfolding get_weather_report_def by blast
  qed
  have e: "fut_effects (submit e v) = snd (get_weather_report (network e v) v)"
    "fut_result (submit e v) = fst (get_weather_report (network e v) v)"
    by (simp_all add: submit_def)
  show ?thesis unfolding v e using a r by blast
qed

section \<open>Aggregation and the whole run\<close>

lemma blocks_filter:
  "set vs \<subseteq> set versions \<Longrightarrow>
   blocks (results (fetch_reports e versions)) (filter (\<lambda>v. kept (network e) v \<noteq> None) vs) = Inr (spec_blocks (network e) vs)"
  by (induction vs) (auto simp: results_map_of)

lemma sorted_reports_spec:
  "sorted_reports (results (fetch_reports e [1..n])) = Inr (spec_blocks (network e) [1..n])"
  unfolding sorted_reports_def sorted_keys by (rule blocks_filter) simp

lemma main_unfold:
  "main e =
     (case fst (get_total_versions (discovery e)) of
        Inl exc \<Rightarrow> Inl (Uncaught exc)
      | Inr total_versions \<Rightarrow>
          if total_versions = 0 then
            Inr \<lparr>dispatched = [], all_reports = [], written = None, copied = None\<rparr>
          else
            (let p = fetch_reports e [1..total_versions] in
             case sorted_reports (results p) of
               Inl err \<Rightarrow> Inl err
             | Inr bs \<Rightarrow>
                 Inr \<lparr>dispatched = submitted p,
                      all_reports = results p,
                      written = Some (join separator bs),
                      copied = Some (''<clip>'' @ separator @ join separator bs
                                     @ separator @ ''</clip>'')\<rparr>))"
  by (simp add: main_def main_run_def fetch_reports_def split_def Let_def split: sum.split)

lemma main_zero:
  "fst (get_total_versions (discovery e)) = Inr 0 \<Longrightarrow>
   main e = Inr \<lparr>dispatched = [], all_reports = [], written = None, copied = None\<rparr>"
  by (simp add: main_unfold)

lemma main_nonzero:
  "fst (get_total_versions (discovery e)) = Inr n \<Longrightarrow> n \<noteq> 0 \<Longrightarrow>
   main e = Inr \<lparr>dispatched = [1..n],
                 all_reports = results (fetch_reports e [1..n]),
                 written = Some (spec_artifact (network e) n),
                 copied = Some (''<clip>'' @ separator @ spec_artifact (network e) n
                                @ separator @ ''</clip>'')\<rparr>"
  by (simp add: main_unfold Let_def sorted_reports_spec spec_artifact_def)
    (simp add: fetch_reports_unfold)

lemma main_swap:
  assumes "fst (get_weather_report (network e v) v) = Inr (Some [])"
    and "fst (get_weather_report m v) = Inr None"
  shows "main (e\<lparr>network := (network e)(v := m)\<rparr>) = main e"
  unfolding main_unfold fetch_reports_swap [OF assms] by simp

lemma fetches_unfold:
  "fst (get_total_versions (discovery e)) = Inr n \<Longrightarrow>
   fetches e = (if n = 0 then [] else map (submit e) [1..n])"
  by (simp add: fetches_def main_run_def fetch_reports_run_def Let_def)

text \<open>
  Claim C7. When discovery yields \<open>n \<ge> 0\<close>, the run hands exactly the versions
  \<open>1, \<dots>, n\<close> to the executor, each once: the pool runs \<open>n\<close> fetches, the \<open>i\<close>-th for
  version \<open>i\<close>, no version twice, none left out. Each of them is the call of
  \<^verbatim>\<open>get_weather_report\<close> for its version, sends between one and three requests, all for
  that version, and what it returns is what the final mapping holds for the version.
\<close>

theorem dispatch_once:
  assumes "fst (get_total_versions (discovery e)) = Inr n" and "0 \<le> n"
  shows "\<exists>r. main e = Inr r \<and> dispatched r = [1..n] \<and> length (dispatched r) = nat n
             \<and> distinct (dispatched r) \<and> set (dispatched r) = {1..n}
             \<and> map fut_version (fetches e) = [1..n] \<and> length (fetches e) = nat n
             \<and> (\<forall>f\<in>set (fetches e).
                   fut_result f
                     = fst (get_weather_report (network e (fut_version f)) (fut_version f))
                 \<and> fut_effects f
                     = snd (get_weather_report (network e (fut_version f)) (fut_version f))
                 \<and> 1 \<le> attempts_made (fut_effects f) \<and> attempts_made (fut_effects f) \<le> 3
                 \<and> (\<forall>u. Request u \<in> set (fut_effects f) \<longrightarrow> u = fut_version f))
             \<and> (\<forall>v. map_of (all_reports r) v
                        = (if v \<in> {1..n} then kept (network e) v else None))"
proof -
  have v: "map fut_version (fetches e) = [1..n]"
    using fetches_unfold [OF assms(1)] by (cases "n = 0") (simp_all add: comp_def submit_version)
  have "length (fetches e) = length (map fut_version (fetches e))" by simp
  also have "\<dots> = length [1..n]" by (simp only: v)
  also have "\<dots> = nat n" by simp
  finally have l: "length (fetches e) = nat n" .
  have f: "\<forall>f\<in>set (fetches e).
                   fut_result f
                     = fst (get_weather_report (network e (fut_version f)) (fut_version f))
                 \<and> fut_effects f
                     = snd (get_weather_report (network e (fut_version f)) (fut_version f))
                 \<and> 1 \<le> attempts_made (fut_effects f) \<and> attempts_made (fut_effects f) \<le> 3
                 \<and> (\<forall>u. Request u \<in> set (fut_effects f) \<longrightarrow> u = fut_version f)"
  proof
    fix f assume i: "f \<in> set (fetches e)"
    have "fetches e = [] \<or> fetches e = map (submit e) [1..n]"
      using fetches_unfold [OF assms(1)] by (cases "n = 0") simp_all
    then have "f \<in> submit e ` set [1..n]" using i by (elim disjE) simp_all
    then obtain v where fv: "f = submit e v" by (rule imageE)
    show "fut_result f
                     = fst (get_weather_report (network e (fut_version f)) (fut_version f))
                 \<and> fut_effects f
                     = snd (get_weather_report (network e (fut_version f)) (fut_version f))
                 \<and> 1 \<le> attempts_made (fut_effects f) \<and> attempts_made (fut_effects f) \<le> 3
                 \<and> (\<forall>u. Request u \<in> set (fut_effects f) \<longrightarrow> u = fut_version f)"
      unfolding fv by (rule submit_fetch)
  qed
  obtain r where m: "main e = Inr r" and d: "dispatched r = [1..n]"
    and a: "all_reports r = (if n = 0 then [] else results (fetch_reports e [1..n]))"
    using main_zero [of e] main_nonzero [of e n] assms by (cases "n = 0") auto
  have dl: "length (dispatched r) = nat n" and dd: "distinct (dispatched r)"
    and ds: "set (dispatched r) = {1..n}"
    using d by simp_all
  have k: "\<forall>v. map_of (all_reports r) v
                 = (if v \<in> {1..n} then kept (network e) v else None)"
    using a by (auto simp: results_map_of)
  show ?thesis
    by (intro exI [of _ r] conjI) (fact m d dl dd ds v l f k)+
qed

theorem dispatch_once_witness:
  "fst (get_total_versions (discovery scenario_a)) = Inr 3
   \<and> (\<exists>r. main scenario_a = Inr r \<and> dispatched r = [1, 2, 3])
   \<and> map fut_version (fetches scenario_a) = [1, 2, 3]
   \<and> map fut_effects (fetches scenario_a)
       = [[Request 1], [Request 2, Log WARNING (NoDataFound 2)], [Request 3]]"
proof -
  have d: "fst (get_total_versions (discovery scenario_a)) = Inr 3" by (simp add: discovery_a)
  obtain r where r: "main scenario_a = Inr r" "dispatched r = [1..3]"
    "map fut_version (fetches scenario_a) = [1..3]"
    using dispatch_once [of scenario_a 3] d by auto
  have u: "[1..3] = [1, 2, 3 :: int]" by (simp add: upto_rec1)
  have n: "network scenario_a = scenario_a_network" by (simp add: scenario_a_def)
  have "map fut_effects (fetches scenario_a)
       = [[Request 1], [Request 2, Log WARNING (NoDataFound 2)], [Request 3]]"
    using gwr_first_response [of "scenario_a_network 1" "\<lparr>pre_tag = Some ''alpha'', divs = []\<rparr>" 1]
    gwr_first_response [of "scenario_a_network 2" "\<lparr>pre_tag = None, divs = []\<rparr>" 2]
    gwr_first_response [of "scenario_a_network 3" "\<lparr>pre_tag = Some '' gamma '', divs = []\<rparr>" 3]
    by (simp add: fetches_unfold [OF d] u submit_def n scenario_a_network_def
        product_page_def empty_page_def)
  then show ?thesis using d r u by (intro conjI exI [of _ r]) simp_all
qed

text \<open>
  Claim C9 says that a run whose discovery yields 0 has the empty string as its artifact.
  Such a run returns before the aggregation: it writes no file and copies nothing.
\<close>

theorem no_versions_counterexample:
  "fst (get_total_versions (discovery scenario_b)) = Inr 0
   \<and> main scenario_b = Inr \<lparr>dispatched = [], all_reports = [], written = None, copied = None\<rparr>"
  by (simp add: discovery_b main_unfold)

text \<open>
  Claim C9, amended. When discovery yields 0, no fetch is dispatched and the run produces
  no artifact at all: nothing is written to the file and nothing is copied to the clipboard.
\<close>

theorem no_versions:
  assumes "fst (get_total_versions (discovery e)) = Inr 0"
  shows "main e = Inr \<lparr>dispatched = [], all_reports = [], written = None, copied = None\<rparr>"
  using assms by (rule main_zero)

theorem no_versions_witness:
  "fst (get_total_versions (discovery (scenario_b\<lparr>discovery := RequestException ''timed out''\<rparr>))) = Inr 0
   \<and> main (scenario_b\<lparr>discovery := RequestException ''timed out''\<rparr>)
       = Inr \<lparr>dispatched = [], all_reports = [], written = None, copied = None\<rparr>"
  using no_versions [of "scenario_b\<lparr>discovery := RequestException ''timed out''\<rparr>"]
  by (simp add: get_total_versions_def)

text \<open>
  Claim C1 says that every version whose outcome is a success has a block. A version whose
  product block holds only whitespace is fetched with success, the returned text being
  empty, and the artifact has no block for it.
\<close>

theorem artifact_counterexample:
  "fst (get_weather_report (network scenario_blank 1) 1) = Inr (Some [])
   \<and> main scenario_blank
       = Inr \<lparr>dispatched = [1], all_reports = [], written = Some [],
              copied = Some (''<clip>'' @ separator @ separator @ ''</clip>'')\<rparr>"
proof -
  have g: "fst (get_weather_report (network scenario_blank 1) 1) = Inr (Some [])"
    using gwr_first_response [of "blank_network 1" "\<lparr>pre_tag = Some ''  '', divs = []\<rparr>" 1]
    by (simp add: scenario_blank_def blank_network_def product_page_def py_eval)
  have n: "network scenario_blank = blank_network" by (simp add: scenario_blank_def)
  have r: "results (fetch_reports scenario_blank [1]) = []"
    using g by (simp add: fetch_reports_unfold as_completed_def collect_def submit_def)
  have "main scenario_blank
       = Inr \<lparr>dispatched = [1], all_reports = [], written = Some [],
              copied = Some (''<clip>'' @ separator @ separator @ ''</clip>'')\<rparr>"
    using main_nonzero [of scenario_blank 1] discovery_blank kept_blank r
    by (simp add: n spec_artifact_def upto_rec1)
  with g show ?thesis by simp
qed

text \<open>
  Claim C1, amended. When discovery yields \<open>n \<noteq> 0\<close>, the written artifact is made of
  one block for each version in \<open>1, \<dots>, n\<close> whose fetch returned a non-empty text and of
  no other block. A block is the opening marker with the version number, the returned
  text, and the closing marker with the version number; the blocks stand in strictly
  ascending order of version, two line feeds between neighbours, whatever the order in
  which the fetches completed. The returned text of a block is the trimmed text of the
  product block of the page that one of the three attempts received.
\<close>

theorem artifact_blocks:
  assumes "fst (get_total_versions (discovery e)) = Inr n" and "n \<noteq> 0"
  shows "\<exists>r. main e = Inr r
           \<and> written r = Some (join separator (spec_blocks (network e) [1..n]))
           \<and> sort (keys (all_reports r)) = filter (\<lambda>v. kept (network e) v \<noteq> None) [1..n]
           \<and> sorted_wrt (<) (sort (keys (all_reports r)))
           \<and> (\<forall>f. \<exists>r'. main (e\<lparr>finish := f\<rparr>) = Inr r' \<and> written r' = written r)
           \<and> (\<forall>v t. kept (network e) v = Some t \<longrightarrow>
                  t \<noteq> [] \<and> fst (get_weather_report (network e v) v) = Inr (Some t)
                \<and> (\<exists>j p raw. j < 3 \<and> network e v j = Response p
                                \<and> pre_tag p = Some raw \<and> t = strip raw))"
proof -
  let ?r = "\<lparr>dispatched = [1..n],
             all_reports = results (fetch_reports e [1..n]),
             written = Some (spec_artifact (network e) n),
             copied = Some (''<clip>'' @ separator @ spec_artifact (network e) n
                            @ separator @ ''</clip>'')\<rparr>"
  have m: "main e = Inr ?r" using assms by (rule main_nonzero)
  have k: "sort (keys (all_reports ?r)) = filter (\<lambda>v. kept (network e) v \<noteq> None) [1..n]"
    by (simp add: sorted_keys)
  have "sorted_wrt (<) (filter (\<lambda>v. kept (network e) v \<noteq> None) [1..n])"
    by (simp add: sorted_wrt_filter strict_sorted_iff[symmetric])
  then have s: "sorted_wrt (<) (sort (keys (all_reports ?r)))" by (simp only: k)
  have f: "\<exists>r'. main (e\<lparr>finish := f\<rparr>) = Inr r' \<and> written r' = written ?r" for f
    using main_nonzero [of "e\<lparr>finish := f\<rparr>" n] assms by simp
  have t: "\<forall>v t. kept (network e) v = Some t \<longrightarrow>
                  t \<noteq> [] \<and> fst (get_weather_report (network e v) v) = Inr (Some t)
                \<and> (\<exists>j p raw. j < 3 \<and> network e v j = Response p
                                \<and> pre_tag p = Some raw \<and> t = strip raw)"
    using kept_trimmed [of "network e"] by blast
  have w: "written ?r = Some (join separator (spec_blocks (network e) [1..n]))"
    by (simp add: spec_artifact_def)
  show ?thesis
    using m w k s f t by (intro exI [of _ ?r] conjI) blast+
qed

theorem artifact_blocks_witness:
  "fst (get_total_versions (discovery scenario_a)) = Inr 3
   \<and> (\<exists>r. main scenario_a = Inr r
         \<and> written r = Some ''<version_1>\<newline>alpha\<newline></version_1>\<newline>\<newline><version_3>\<newline>gamma\<newline></version_3>'')"
proof -
  have n: "network scenario_a = scenario_a_network" by (simp add: scenario_a_def)
  have d: "fst (get_total_versions (discovery scenario_a)) = Inr 3" by (simp add: discovery_a)
  have b: "join separator (spec_blocks scenario_a_network [1..3])
     = ''<version_1>\<newline>alpha\<newline></version_1>\<newline>\<newline><version_3>\<newline>gamma\<newline></version_3>''"
    by (simp add: upto_rec1 kept_a block_def separator_def str_int_def str_nat_small
        digit_char_def)
  obtain r where "main scenario_a = Inr r"
    "written r = Some (join separator (spec_blocks (network scenario_a) [1..3]))"
    using artifact_blocks [of scenario_a 3] d by auto
  then show ?thesis using d b n by simp
qed

text \<open>
  Claim C10. A version for which an attempt receives a page with a product block whose
  text is empty after trimming has no entry in the final mapping and no block in the artifact: the pool's
  result and the whole run are the same as if that version had no product block, and the
  same as if all its attempts had failed.
\<close>

theorem empty_payload_dropped:
  assumes "j < 3" and "\<forall>k<j. \<exists>c. network e v k = RequestException c"
    and "network e v j = Response p" and "pre_tag p = Some raw" and "strip raw = []"
  shows "fst (get_weather_report (network e v) v) = Inr (Some [])
       \<and> v \<notin> set (keys (results (fetch_reports e versions)))
       \<and> kept (network e) v = None
       \<and> fetch_reports e versions
           = fetch_reports (e\<lparr>network := (network e)(v := always_missing)\<rparr>) versions
       \<and> fetch_reports e versions
           = fetch_reports (e\<lparr>network := (network e)(v := always_failing)\<rparr>) versions
       \<and> main e = main (e\<lparr>network := (network e)(v := always_missing)\<rparr>)
       \<and> main e = main (e\<lparr>network := (network e)(v := always_failing)\<rparr>)"
proof -
  have g: "fst (get_weather_report (network e v) v) = Inr (Some [])"
    using returns_text [OF assms(1-4), of v] assms(5) by simp
  have k: "kept (network e) v = None" using g by (simp add: kept_def)
  then have "v \<notin> set (keys (results (fetch_reports e versions)))"
    by (simp add: results_keys)
  then show ?thesis
    using g k fetch_reports_swap [OF g missing_none] fetch_reports_swap [OF g failing_none]
      main_swap [OF g missing_none] main_swap [OF g failing_none]
    by simp
qed

theorem empty_payload_dropped_witness:
  "network scenario_blank 1 0 = product_page ''  '' \<and> strip ''  '' = []
   \<and> fst (get_weather_report (network scenario_blank 1) 1) = Inr (Some [])
   \<and> 1 \<notin> set (keys (results (fetch_reports scenario_blank [1])))
   \<and> main scenario_blank
       = main (scenario_blank\<lparr>network := (network scenario_blank)(1 := always_missing)\<rparr>)
   \<and> main scenario_blank
       = main (scenario_blank\<lparr>network := (network scenario_blank)(1 := always_failing)\<rparr>)"
proof -
  have n: "network scenario_blank 1 0 = product_page ''  ''"
    by (simp add: scenario_blank_def blank_network_def)
  have s: "strip ''  '' = []" by (simp add: py_eval)
  have r: "network scenario_blank 1 0 = Response \<lparr>pre_tag = Some ''  '', divs = []\<rparr>"
    by (simp add: n product_page_def)
  have h: "0 < (3::nat)" "\<forall>k<(0::nat). \<exists>c. network scenario_blank 1 k = RequestException c"
    "pre_tag \<lparr>pre_tag = Some ''  '', divs = []\<rparr> = Some ''  ''"
    by simp_all
  note t = empty_payload_dropped [OF h(1) h(2) r h(3) s, of "[1]"]
  show ?thesis using n s t by blast
qed

end
